theory Spec2Isabelle
  imports
    Main
    "HOL-Library.Word"
    "HOL-Library.Char_ord"
    "HOL-Library.List_Lexorder"
    "HOL-Library.Multiset"
begin

unbundle bit_operations_syntax

section \<open>Strings\<close>

text \<open>
  A JavaScript string is modelled as a \<^typ>\<open>string\<close>: a list of code units below 256.
  The default \<^verbatim>\<open>Array.prototype.sort\<close> compares strings code unit by code unit, a proper
  prefix first: the lexicographic order of \<^theory_text>\<open>List_Lexorder\<close> over the order of
  \<^theory_text>\<open>Char_ord\<close>.

  \<^verbatim>\<open>String.prototype.toLowerCase\<close> on code units below 256 moves \<^verbatim>\<open>A-Z\<close> and the
  upper-case letters of Latin-1 (\<^verbatim>\<open>0xC0-0xD6\<close>, \<^verbatim>\<open>0xD8-0xDE\<close>) up by 32 and leaves every other
  code unit alone.
\<close>

definition toLowerChar :: "char \<Rightarrow> char" where
  "toLowerChar c =
     (let n = (of_char c :: nat)
      in if (65 \<le> n \<and> n \<le> 90) \<or> (192 \<le> n \<and> n \<le> 214) \<or> (216 \<le> n \<and> n \<le> 222)
         then char_of (n + 32) else c)"

definition toLowerCase :: "string \<Rightarrow> string" where
  "toLowerCase s = map toLowerChar s"

text \<open>\<^verbatim>\<open>s.replace(/^0x/, '')\<close>: one leading \<^verbatim>\<open>0x\<close> is removed when it is there.\<close>

definition replace0x :: "string \<Rightarrow> string" where
  "replace0x s = (if take 2 s = ''0x'' then drop 2 s else s)"

section \<open>The digest of the ethers library\<close>

text \<open>
  \<^verbatim>\<open>keccak256\<close> is imported from ethers. Its contract: the argument is a
  \<^verbatim>\<open>BytesLike\<close>; a string that does not match \<^verbatim>\<open>/^0x(?:[0-9a-f][0-9a-f])*$/i\<close> is refused
  with an invalid-argument error; the 32 bytes of the digest come back through
  \<^verbatim>\<open>hexlify\<close>, as \<^verbatim>\<open>0x\<close> and 64 lower-case hex digits. The Keccak permutation
  itself is the parameter \<open>K\<close> of everything below: a function from the bytes to a
  256-bit word.
\<close>

datatype error =
    Error string            \<comment> \<open>\<^verbatim>\<open>throw new Error(message)\<close> in the sources\<close>
  | InvalidBytesLike string \<comment> \<open>the argument error of ethers' \<^verbatim>\<open>getBytes\<close>, with the value\<close>
  | TypeError               \<comment> \<open>a method called on \<^verbatim>\<open>undefined\<close>\<close>
  | SyntaxError             \<comment> \<open>\<^verbatim>\<open>JSON.parse\<close> on a malformed text\<close>

type_synonym bytes = "8 word list"
type_synonym sponge = "bytes \<Rightarrow> 256 word"

definition isHexDigit :: "char \<Rightarrow> bool" where
  "isHexDigit c =
     (let n = (of_char c :: nat)
      in (48 \<le> n \<and> n \<le> 57) \<or> (97 \<le> n \<and> n \<le> 102) \<or> (65 \<le> n \<and> n \<le> 70))"

definition hexValue :: "char \<Rightarrow> nat" where
  "hexValue c =
     (let n = (of_char c :: nat)
      in if n \<le> 57 then n - 48 else if 97 \<le> n then n - 87 else n - 55)"

fun hexPairs :: "string \<Rightarrow> bytes" where
  "hexPairs (hi # lo # rest) = of_nat (16 * hexValue hi + hexValue lo) # hexPairs rest"
| "hexPairs _ = []"

definition isBytesLike :: "string \<Rightarrow> bool" where
  "isBytesLike s =
     ((take 2 s = ''0x'' \<or> take 2 s = ''0X'') \<and> even (length s) \<and> list_all isHexDigit (drop 2 s))"

definition getBytes :: "string \<Rightarrow> error + bytes" where
  "getBytes s = (if isBytesLike s then Inr (hexPairs (drop 2 s)) else Inl (InvalidBytesLike s))"

definition hexChar :: "nat \<Rightarrow> char" where
  "hexChar n = ''0123456789abcdef'' ! (n mod 16)"

definition hexlify :: "256 word \<Rightarrow> string" where
  "hexlify w = ''0x'' @ map (\<lambda>i. hexChar (unat (drop_bit (4 * (63 - i)) w AND 15))) [0..<64]"

definition keccak256 :: "sponge \<Rightarrow> string \<Rightarrow> error + string" where
  "keccak256 K data =
     (case getBytes data of Inl e \<Rightarrow> Inl e | Inr bs \<Rightarrow> Inr (hexlify (K bs)))"

section \<open>Merkle tree builder (server/src/merkle/merkle.ts)\<close>

record MerkleBatch =
  batch_id :: string
  root :: string
  leaves :: "string list"
  tree :: "string list list"
  created_at :: nat
  leaf_count :: nat

text \<open>The field \<^verbatim>\<open>proof\<close> of the source is \<open>proof_path\<close> here.\<close>

record MerkleProof =
  leaf :: string
  proof_path :: "string list"
  proof_root :: string
  leaf_index :: nat

definition normalizeHash :: "string \<Rightarrow> string" where
  "normalizeHash hash = (let cleaned = replace0x (toLowerCase hash) in ''0x'' @ cleaned)"

definition hashPair :: "sponge \<Rightarrow> string \<Rightarrow> string \<Rightarrow> error + string" where
  "hashPair K left right =
     (let normalizedLeft = normalizeHash left;
          normalizedRight = normalizeHash right;
          sorted = sort [normalizedLeft, normalizedRight];
          first = sorted ! 0;
          second = sorted ! 1;
          combined = first @ drop 2 second
      in keccak256 K combined)"

text \<open>
  The loop of \<^verbatim>\<open>buildNextLevel\<close> steps through the level two at a time; \<^verbatim>\<open>right ?? left\<close>
  pairs the last node of an odd level with itself. \<^verbatim>\<open>left\<close> is read inside the bounds, so
  the \<^verbatim>\<open>undefined\<close> check of the source never fires.
\<close>

fun buildNextLevel :: "sponge \<Rightarrow> string list \<Rightarrow> error + string list" where
  "buildNextLevel K [] = Inr []"
| "buildNextLevel K [left] =
     (case hashPair K left left of Inl e \<Rightarrow> Inl e | Inr h \<Rightarrow> Inr [h])"
| "buildNextLevel K (left # right # rest) =
     (case hashPair K left right of
        Inl e \<Rightarrow> Inl e
      | Inr h \<Rightarrow> (case buildNextLevel K rest of Inl e \<Rightarrow> Inl e | Inr hs \<Rightarrow> Inr (h # hs)))"

text \<open>The \<^verbatim>\<open>while (currentLevel.length > 1)\<close> loop of \<^verbatim>\<open>buildTree\<close>, on \<open>(levels, currentLevel)\<close>.\<close>

function buildTreeLoop :: "sponge \<Rightarrow> string list list \<Rightarrow> string list \<Rightarrow> error + string list list" where
  "buildTreeLoop K levels currentLevel =
     (if length currentLevel > 1
      then (case buildNextLevel K currentLevel of
              Inl e \<Rightarrow> Inl e
            | Inr nxt \<Rightarrow> buildTreeLoop K (levels @ [nxt]) nxt)
      else Inr levels)"
  by pat_completeness auto
termination
proof (relation "measure (\<lambda>(K, levels, currentLevel). length currentLevel)")
  show "wf (measure (\<lambda>(K, levels, currentLevel). length currentLevel))"
    by simp
next
  fix K :: sponge and levels :: "string list list" and currentLevel nxt :: "string list"
  assume long: "1 < length currentLevel" and nxt: "buildNextLevel K currentLevel = Inr nxt"
  have "length nxt = (length currentLevel + 1) div 2"
    using nxt
    by (induction K currentLevel arbitrary: nxt rule: buildNextLevel.induct)
       (auto split: sum.splits)
  with long show "((K, levels @ [nxt], nxt), (K, levels, currentLevel))
      \<in> measure (\<lambda>(K, levels, currentLevel). length currentLevel)"
    by simp
qed

declare buildTreeLoop.simps [simp del]

definition buildTree :: "sponge \<Rightarrow> string list \<Rightarrow> error + string list list" where
  "buildTree K lvs =
     (if length lvs = 0 then Inl (Error ''Cannot build Merkle tree with empty leaves'')
      else let normalizedLeaves = map normalizeHash lvs;
               sortedLeaves = sort normalizedLeaves
           in buildTreeLoop K [sortedLeaves] sortedLeaves)"

text \<open>
  \<^verbatim>\<open>generateBatchId()\<close> and \<^verbatim>\<open>Date.now()\<close> read the clock and the random source: the
  identifier and the time they give are the arguments \<open>newId\<close> and \<open>now\<close>.
\<close>

definition buildMerkleBatch :: "sponge \<Rightarrow> string \<Rightarrow> nat \<Rightarrow> string list \<Rightarrow> error + MerkleBatch" where
  "buildMerkleBatch K newId now hashes =
     (if length hashes = 0 then Inl (Error ''Cannot create batch with no hashes'')
      else case buildTree K hashes of
             Inl e \<Rightarrow> Inl e
           | Inr t \<Rightarrow>
               if t = [] \<or> length (last t) \<noteq> 1 then Inl (Error ''Invalid tree structure'')
               else let r = hd (last t)
                    in if r = [] then Inl (Error ''Failed to compute Merkle root'')
                       else Inr \<lparr> batch_id = newId, root = r,
                                  leaves = (case t of [] \<Rightarrow> [] | l # _ \<Rightarrow> l),
                                  tree = t, created_at = now, leaf_count = length hashes \<rparr>)"

text \<open>\<^verbatim>\<open>Array.prototype.findIndex\<close>; \<open>None\<close> is the \<^verbatim>\<open>-1\<close> of the source.\<close>

fun findIndex :: "('a \<Rightarrow> bool) \<Rightarrow> 'a list \<Rightarrow> nat option" where
  "findIndex P [] = None"
| "findIndex P (x # xs) =
     (if P x then Some 0 else (case findIndex P xs of None \<Rightarrow> None | Some i \<Rightarrow> Some (Suc i)))"

definition findLeafIndex :: "string list \<Rightarrow> string \<Rightarrow> nat option" where
  "findLeafIndex sortedLeaves targetLeaf =
     (let normalized = normalizeHash targetLeaf
      in findIndex (\<lambda>l. toLowerCase l = toLowerCase normalized) sortedLeaves)"

text \<open>\<^verbatim>\<open>xs[i]\<close> is \<^verbatim>\<open>undefined\<close> outside the bounds.\<close>

definition at :: "'a list \<Rightarrow> nat \<Rightarrow> 'a option" where
  "at xs i = (if i < length xs then Some (xs ! i) else None)"

text \<open>
  The \<^verbatim>\<open>for\<close> loop of \<^verbatim>\<open>generateProof\<close> over the levels below the top one, on
  \<open>(currentIndex, proof)\<close>. \<^verbatim>\<open>a ?? b\<close> takes \<open>b\<close> when \<open>a\<close> is \<^verbatim>\<open>undefined\<close>, and
  \<^verbatim>\<open>if (sibling)\<close> skips \<^verbatim>\<open>undefined\<close> and the empty string.
\<close>

fun generateProofLoop :: "string list list \<Rightarrow> nat \<Rightarrow> string list \<Rightarrow> string list" where
  "generateProofLoop [] currentIndex prf = prf"
| "generateProofLoop (currentLevel # rest) currentIndex prf =
     (let isRight = (currentIndex mod 2 = 1);
          siblingIndex = (if isRight then currentIndex - 1 else currentIndex + 1);
          sibling = (case at currentLevel siblingIndex of
                       Some s \<Rightarrow> Some s
                     | None \<Rightarrow> at currentLevel currentIndex);
          prf' = (case sibling of
                    Some s \<Rightarrow> if s \<noteq> [] then prf @ [s] else prf
                  | None \<Rightarrow> prf)
      in generateProofLoop rest (currentIndex div 2) prf')"

definition generateProof :: "MerkleBatch \<Rightarrow> string \<Rightarrow> MerkleProof option" where
  "generateProof batch leafHash =
     (case findLeafIndex (leaves batch) leafHash of
        None \<Rightarrow> None
      | Some leafIndex \<Rightarrow>
          Some \<lparr> leaf = normalizeHash leafHash,
                 proof_path = generateProofLoop (butlast (tree batch)) leafIndex [],
                 proof_root = root batch,
                 leaf_index = leafIndex \<rparr>)"

fun verifyProofLoop :: "sponge \<Rightarrow> string \<Rightarrow> string list \<Rightarrow> error + string" where
  "verifyProofLoop K current [] = Inr current"
| "verifyProofLoop K current (sibling # rest) =
     (case hashPair K current sibling of
        Inl e \<Rightarrow> Inl e
      | Inr h \<Rightarrow> verifyProofLoop K h rest)"

definition verifyProof :: "sponge \<Rightarrow> MerkleProof \<Rightarrow> error + bool" where
  "verifyProof K p =
     (case verifyProofLoop K (normalizeHash (leaf p)) (proof_path p) of
        Inl e \<Rightarrow> Inl e
      | Inr current \<Rightarrow> Inr (toLowerCase current = toLowerCase (normalizeHash (proof_root p))))"

definition computeRoot :: "sponge \<Rightarrow> string \<Rightarrow> nat \<Rightarrow> string list \<Rightarrow> error + string" where
  "computeRoot K newId now hashes =
     (case buildMerkleBatch K newId now hashes of
        Inl e \<Rightarrow> Inl e
      | Inr batch \<Rightarrow> Inr (root batch))"

subsection \<open>Auxiliary notions for the proofs about the tree\<close>

text \<open>
  The node that \<^verbatim>\<open>buildNextLevel\<close> pairs with position \<open>i\<close> of a level: its neighbour, or
  the node itself at the end of an odd level.
\<close>

definition siblingOf :: "string list \<Rightarrow> nat \<Rightarrow> string" where
  "siblingOf level i =
     (let j = (if i mod 2 = 1 then i - 1 else i + 1)
      in if j < length level then level ! j else level ! i)"

text \<open>What one round of the loop of \<^verbatim>\<open>generateProof\<close> appends to the proof.\<close>

definition pushed :: "string list \<Rightarrow> nat \<Rightarrow> string list" where
  "pushed level i =
     (case (case at level (if i mod 2 = 1 then i - 1 else i + 1) of
              Some s \<Rightarrow> Some s | None \<Rightarrow> at level i) of
        Some s \<Rightarrow> if s \<noteq> [] then [s] else []
      | None \<Rightarrow> [])"


text \<open>
  The string that \<^verbatim>\<open>hashPair\<close> gives to \<^verbatim>\<open>keccak256\<close>: \<^verbatim>\<open>sorted[0] + sorted[1].slice(2)\<close>.
\<close>

definition combined :: "string \<Rightarrow> string \<Rightarrow> string" where
  "combined left right =
     (let sorted = sort [normalizeHash left, normalizeHash right]
      in sorted ! 0 @ drop 2 (sorted ! 1))"

text \<open>
  The byte strings that the loop of \<^verbatim>\<open>verifyProof\<close> gives to the digest, one for each
  sibling, from the leaf up; the list ends where \<^verbatim>\<open>keccak256\<close> raises.
\<close>

fun hashedBytes :: "sponge \<Rightarrow> string \<Rightarrow> string list \<Rightarrow> bytes list" where
  "hashedBytes K current [] = []"
| "hashedBytes K current (sibling # rest) =
     (case getBytes (combined current sibling) of
        Inl e \<Rightarrow> []
      | Inr bs \<Rightarrow> bs # hashedBytes K (hexlify (K bs)) rest)"

text \<open>
  A content hash as the data model has it, after normalisation: \<^verbatim>\<open>0x\<close> and 64 hex digits.
\<close>

definition isContentHash :: "string \<Rightarrow> bool" where
  "isContentHash s = (length (normalizeHash s) = 66 \<and> isBytesLike (normalizeHash s))"

text \<open>A hex digit that \<^verbatim>\<open>toLowerCase\<close> leaves alone: \<^verbatim>\<open>0-9\<close> or \<^verbatim>\<open>a-f\<close>.\<close>

definition lowerHex :: "char \<Rightarrow> bool" where
  "lowerHex c = (isHexDigit c \<and> toLowerChar c = c)"


section \<open>JSON values and the canonicalizer (hashing/canonicalizer.ts)\<close>

text \<open>
  \<^verbatim>\<open>JsonValue | undefined\<close>. A number is carried as the text that \<^verbatim>\<open>Number::toString\<close>
  gives it, which is what \<^verbatim>\<open>JSON.stringify\<close> prints for a finite number. An object is the
  list of its own properties in the order in which JavaScript enumerates them, each key
  once.
\<close>

datatype json =
    JUndefined
  | JNull
  | JBool bool
  | JNumber string
  | JString string
  | JArray "json list"
  | JObject "(string \<times> json) list"

text \<open>The \<^verbatim>\<open>typeof\<close> operator.\<close>

definition typeof :: "json \<Rightarrow> string" where
  "typeof v = (case v of
      JUndefined \<Rightarrow> ''undefined'' | JNull \<Rightarrow> ''object'' | JBool _ \<Rightarrow> ''boolean''
    | JNumber _ \<Rightarrow> ''number'' | JString _ \<Rightarrow> ''string'' | JArray _ \<Rightarrow> ''object''
    | JObject _ \<Rightarrow> ''object'')"

text \<open>
  An array index is the decimal text, without leading zeros, of an integer below
  \<open>2\<^sup>3\<^sup>2 - 1\<close>. JavaScript enumerates the array-index keys of an object first, in
  ascending numeric order, and then its other string keys in the order of their creation.
\<close>

definition isDigit :: "char \<Rightarrow> bool" where
  "isDigit c = (48 \<le> (of_char c :: nat) \<and> (of_char c :: nat) \<le> 57)"

definition decimalValue :: "string \<Rightarrow> nat" where
  "decimalValue k = foldl (\<lambda>n c. 10 * n + ((of_char c :: nat) - 48)) 0 k"

definition isArrayIndex :: "string \<Rightarrow> bool" where
  "isArrayIndex k =
     (k \<noteq> [] \<and> list_all isDigit k \<and> (k = ''0'' \<or> hd k \<noteq> CHR ''0'') \<and>
      decimalValue k < 4294967295)"

text \<open>
  The assignment \<^verbatim>\<open>result[key] = value\<close> on an ordinary object. A key that is there keeps
  its place; a new array index goes to its numeric place, any other new key to the end.
  \<^verbatim>\<open>__proto__\<close> reaches the accessor inherited from \<^verbatim>\<open>Object.prototype\<close> and creates no
  own property.
\<close>

definition jsSet :: "(string \<times> json) list \<Rightarrow> string \<Rightarrow> json \<Rightarrow> (string \<times> json) list" where
  "jsSet obj key v =
     (if key = ''__proto__'' then obj
      else if key \<in> set (map fst obj)
        then map (\<lambda>(k, w). if k = key then (k, v) else (k, w)) obj
      else if isArrayIndex key
        then takeWhile (\<lambda>(k, w). isArrayIndex k \<and> decimalValue k < decimalValue key) obj
             @ [(key, v)]
             @ dropWhile (\<lambda>(k, w). isArrayIndex k \<and> decimalValue k < decimalValue key) obj
      else obj @ [(key, v)])"

definition Object_keys :: "(string \<times> json) list \<Rightarrow> string list" where
  "Object_keys obj = map fst obj"

text \<open>
  \<^verbatim>\<open>canonicalizeValue\<close> and \<^verbatim>\<open>canonicalizeObject\<close>; the \<^verbatim>\<open>for\<close> loop over the sorted keys
  is the \<open>foldl\<close>, \<^verbatim>\<open>obj[key]\<close> the lookup \<open>map_of obj key\<close>.
\<close>

function canonicalizeValue :: "json \<Rightarrow> json"
  and canonicalizeObject :: "(string \<times> json) list \<Rightarrow> (string \<times> json) list" where
  "canonicalizeValue JUndefined = JUndefined"
| "canonicalizeValue JNull = JNull"
| "canonicalizeValue (JString s) = JString s"
| "canonicalizeValue (JNumber n) = JNumber n"
| "canonicalizeValue (JBool b) = JBool b"
| "canonicalizeValue (JArray items) =
     JArray (filter (\<lambda>item. item \<noteq> JUndefined) (map canonicalizeValue items))"
| "canonicalizeValue (JObject obj) = JObject (canonicalizeObject obj)"
| "canonicalizeObject obj =
     (let sortedKeys = sort (Object_keys obj)
      in foldl (\<lambda>result key.
           (case map_of obj key of
              None \<Rightarrow> result
            | Some v \<Rightarrow>
                if v \<noteq> JUndefined
                then (let canonicalized = canonicalizeValue v
                      in if canonicalized \<noteq> JUndefined then jsSet result key canonicalized
                         else result)
                else result))
         [] sortedKeys)"
  by pat_completeness auto
termination
proof (relation "measure (\<lambda>a. case a of Inl v \<Rightarrow> 2 * size v | Inr obj \<Rightarrow> 2 * size (JObject obj) - 1)")
  show "wf (measure (\<lambda>a. case a of Inl v \<Rightarrow> 2 * size v | Inr obj \<Rightarrow> 2 * size (JObject obj) - 1))"
    by simp
next
  fix items :: "json list" and x
  assume "x \<in> set items"
  then have "size x < Suc (size_list size items)"
    using size_list_estimation' [of x items "size x" size] by simp
  then show "(Inl x, Inl (JArray items))
      \<in> measure (\<lambda>a. case a of Inl v \<Rightarrow> 2 * size v | Inr obj \<Rightarrow> 2 * size (JObject obj) - 1)"
    by simp
next
  fix obj :: "(string \<times> json) list"
  show "(Inr obj, Inl (JObject obj))
      \<in> measure (\<lambda>a. case a of Inl v \<Rightarrow> 2 * size v | Inr obj \<Rightarrow> 2 * size (JObject obj) - 1)"
    by simp
next
  fix obj :: "(string \<times> json) list" and x xa xb :: string and y and x2 :: json
  assume "map_of obj y = Some x2"
  then have "(y, x2) \<in> set obj" by (rule map_of_SomeD)
  then have "size_prod (\<lambda>_. 0) size (y, x2) < Suc (size_list (size_prod (\<lambda>_. 0) size) obj)"
    using size_list_estimation' [of "(y, x2)" obj "size_prod (\<lambda>_. 0) size (y, x2)" "size_prod (\<lambda>_. 0) size"]
    by simp
  then show "(Inl x2, Inr obj)
      \<in> measure (\<lambda>a. case a of Inl v \<Rightarrow> 2 * size v | Inr obj \<Rightarrow> 2 * size (JObject obj) - 1)"
    by simp
qed

declare canonicalizeObject.simps [simp del]

text \<open>
  \<^verbatim>\<open>JSON.stringify\<close> without indentation. A string is quoted with the escapes of the
  standard; \<^verbatim>\<open>undefined\<close> is printed as \<^verbatim>\<open>null\<close> inside an array, is skipped with its key
  inside an object, and alone has no text (\<open>None\<close>).
\<close>

definition hex4 :: "nat \<Rightarrow> string" where
  "hex4 n = [hexChar (n div 4096), hexChar (n div 256), hexChar (n div 16), hexChar n]"

definition quoteChar :: "char \<Rightarrow> string" where
  "quoteChar c =
     (let n = (of_char c :: nat)
      in if n = 34 then [CHR 0x5C, CHR 0x22]
         else if n = 92 then [CHR 0x5C, CHR 0x5C]
         else if n = 8 then [CHR 0x5C, CHR ''b'']
         else if n = 9 then [CHR 0x5C, CHR ''t'']
         else if n = 10 then [CHR 0x5C, CHR ''n'']
         else if n = 12 then [CHR 0x5C, CHR ''f'']
         else if n = 13 then [CHR 0x5C, CHR ''r'']
         else if n < 32 then [CHR 0x5C, CHR ''u''] @ hex4 n
         else [c])"

definition quoteJSONString :: "string \<Rightarrow> string" where
  "quoteJSONString s = [CHR 0x22] @ concat (map quoteChar s) @ [CHR 0x22]"

fun join :: "string \<Rightarrow> string list \<Rightarrow> string" where
  "join sep [] = []"
| "join sep [x] = x"
| "join sep (x # y # rest) = x @ sep @ join sep (y # rest)"

fun JSON_stringify :: "json \<Rightarrow> string option" where
  "JSON_stringify JUndefined = None"
| "JSON_stringify JNull = Some ''null''"
| "JSON_stringify (JBool b) = Some (if b then ''true'' else ''false'')"
| "JSON_stringify (JNumber n) = Some n"
| "JSON_stringify (JString s) = Some (quoteJSONString s)"
| "JSON_stringify (JArray items) =
     Some (''['' @ join '','' (map (\<lambda>item. case JSON_stringify item of
                                             None \<Rightarrow> ''null'' | Some t \<Rightarrow> t) items) @ '']'')"
| "JSON_stringify (JObject obj) =
     Some (''{'' @ join '','' (concat (map (\<lambda>(k, v). case JSON_stringify v of
                                                     None \<Rightarrow> []
                                                   | Some t \<Rightarrow> [quoteJSONString k @ '':'' @ t]) obj))
           @ ''}'')"

text \<open>
  \<^verbatim>\<open>canonicalize\<close>. After the two guards the argument is an array or an object, whose
  canonical value is one again, so \<^verbatim>\<open>JSON.stringify\<close> has a text for it
  (\<open>canonicalize_text\<close> below); the last case is there for totality.
\<close>

definition canonicalize :: "json \<Rightarrow> error + string" where
  "canonicalize obj =
     (if obj = JNull \<or> obj = JUndefined then Inl (Error ''Cannot canonicalize null or undefined'')
      else if typeof obj \<noteq> ''object'' then Inl (Error ''Can only canonicalize objects'')
      else let canonicalized = canonicalizeValue obj
           in case JSON_stringify canonicalized of
                Some text \<Rightarrow> Inr text
              | None \<Rightarrow> Inl TypeError)"

text \<open>
  \<^verbatim>\<open>JSON.parse\<close> is the runtime's: the parameter \<open>parse\<close>, which raises on a malformed
  text. \<^verbatim>\<open>isCanonical\<close> catches every error.
\<close>

definition parseAndCanonicalize :: "(string \<Rightarrow> error + json) \<Rightarrow> string \<Rightarrow> error + string" where
  "parseAndCanonicalize parse jsonString =
     (case parse jsonString of
        Inl e \<Rightarrow> Inl e
      | Inr parsed \<Rightarrow>
          if parsed = JNull \<or> typeof parsed \<noteq> ''object''
          then Inl (Error ''Can only canonicalize objects'')
          else canonicalize parsed)"

definition isCanonical :: "(string \<Rightarrow> error + json) \<Rightarrow> string \<Rightarrow> bool" where
  "isCanonical parse jsonString =
     (case parseAndCanonicalize parse jsonString of
        Inl e \<Rightarrow> False
      | Inr recanonicalized \<Rightarrow> jsonString = recanonicalized)"

section \<open>Inference hasher (server/src/hashing/hasher.ts)\<close>

text \<open>
  \<^verbatim>\<open>InferenceRecord\<close> of types/index.ts. The two open mappings are objects; the optional
  fields are options. The field \<^verbatim>\<open>context\<close> is \<open>inference_context\<close> here.
\<close>

record InferenceRecord =
  model :: string
  prompt_hash :: string
  output_hash :: string
  parameters :: "(string \<times> json) list option"
  inference_context :: "(string \<times> json) list option"
  timestamp :: "string option"
  nonce :: "string option"

text \<open>
  \<^verbatim>\<open>prepareForHashing\<close>; its \<^verbatim>\<open>normalizeHash\<close> is, word for word, the one of merkle.ts.
\<close>

definition prepareForHashing :: "InferenceRecord \<Rightarrow> InferenceRecord" where
  "prepareForHashing record' =
     (let prepared = \<lparr> model = model record',
                        prompt_hash = normalizeHash (prompt_hash record'),
                        output_hash = normalizeHash (output_hash record'),
                        parameters = None, inference_context = None, timestamp = None, nonce = None \<rparr>;
          prepared = (case parameters record' of
                        Some ps \<Rightarrow> if length (Object_keys ps) > 0
                                   then prepared\<lparr>parameters := Some ps\<rparr> else prepared
                      | None \<Rightarrow> prepared);
          prepared = (case inference_context record' of
                        Some cx \<Rightarrow> if length (Object_keys cx) > 0
                                   then prepared\<lparr>inference_context := Some cx\<rparr> else prepared
                      | None \<Rightarrow> prepared);
          prepared = (case timestamp record' of
                        Some t \<Rightarrow> prepared\<lparr>timestamp := Some t\<rparr>
                      | None \<Rightarrow> prepared);
          prepared = (case nonce record' of
                        Some n \<Rightarrow> prepared\<lparr>nonce := Some n\<rparr>
                      | None \<Rightarrow> prepared)
      in prepared)"

text \<open>
  The record as the object that \<^verbatim>\<open>canonicalize\<close> receives: its properties in the order in
  which \<^verbatim>\<open>prepareForHashing\<close> creates them.
\<close>

definition recordObject :: "InferenceRecord \<Rightarrow> json" where
  "recordObject r =
     JObject ([(''model'', JString (model r)),
               (''prompt_hash'', JString (prompt_hash r)),
               (''output_hash'', JString (output_hash r))]
              @ (case parameters r of Some ps \<Rightarrow> [(''parameters'', JObject ps)] | None \<Rightarrow> [])
              @ (case inference_context r of Some cx \<Rightarrow> [(''context'', JObject cx)] | None \<Rightarrow> [])
              @ (case timestamp r of Some t \<Rightarrow> [(''timestamp'', JNumber t)] | None \<Rightarrow> [])
              @ (case nonce r of Some n \<Rightarrow> [(''nonce'', JString n)] | None \<Rightarrow> []))"

text \<open>\<^verbatim>\<open>toUtf8Bytes\<close> on code units below 256: one byte below 128, two bytes from there.\<close>

definition toUtf8Bytes :: "string \<Rightarrow> bytes" where
  "toUtf8Bytes s =
     concat (map (\<lambda>c. let n = (of_char c :: nat)
                       in if n < 128 then [of_nat n]
                          else [of_nat (192 + n div 64), of_nat (128 + n mod 64)]) s)"

text \<open>\<^verbatim>\<open>keccak256\<close> on a \<^verbatim>\<open>Uint8Array\<close>: nothing to validate.\<close>

definition keccak256_bytes :: "sponge \<Rightarrow> bytes \<Rightarrow> string" where
  "keccak256_bytes K bs = hexlify (K bs)"

definition hashInference :: "sponge \<Rightarrow> InferenceRecord \<Rightarrow> error + string" where
  "hashInference K record' =
     (let prepared = prepareForHashing record'
      in case canonicalize (recordObject prepared) of
           Inl e \<Rightarrow> Inl e
         | Inr canonical \<Rightarrow> Inr (keccak256_bytes K (toUtf8Bytes canonical)))"

definition verifyInferenceHash :: "sponge \<Rightarrow> InferenceRecord \<Rightarrow> string \<Rightarrow> error + bool" where
  "verifyInferenceHash K record' expectedHash =
     (case hashInference K record' of
        Inl e \<Rightarrow> Inl e
      | Inr computed \<Rightarrow> Inr (toLowerCase computed = toLowerCase (normalizeHash expectedHash)))"

section \<open>Notions for the claims about the canonicalizer and the hasher\<close>

text \<open>
  Two values that differ at most in the order of the fields of their objects, at any
  depth. An object has each key once.
\<close>

fun sameJson :: "json \<Rightarrow> json \<Rightarrow> bool" where
  "sameJson (JArray xs) (JArray ys) = list_all2 sameJson xs ys"
| "sameJson (JObject a) (JObject b) =
     (distinct (map fst a) \<and> distinct (map fst b) \<and> set (map fst a) = set (map fst b) \<and>
      (\<forall>(k, v) \<in> set a. case map_of b k of Some w \<Rightarrow> sameJson v w | None \<Rightarrow> False))"
| "sameJson v w = (v = w)"

text \<open>A value all of whose objects have each key once.\<close>

fun wfJson :: "json \<Rightarrow> bool" where
  "wfJson (JArray xs) = list_all wfJson xs"
| "wfJson (JObject a) = (distinct (map fst a) \<and> list_all (\<lambda>(k, v). wfJson v) a)"
| "wfJson v = True"



text \<open>The body of the loop of \<^verbatim>\<open>canonicalizeObject\<close>.\<close>

definition canonStep :: "(string \<times> json) list \<Rightarrow> (string \<times> json) list \<Rightarrow> string \<Rightarrow> (string \<times> json) list" where
  "canonStep obj result key =
     (case map_of obj key of
        None \<Rightarrow> result
      | Some v \<Rightarrow>
          if v \<noteq> JUndefined
          then (let canonicalized = canonicalizeValue v
                in if canonicalized \<noteq> JUndefined then jsSet result key canonicalized
                   else result)
          else result)"

text \<open>
  Two optional mappings that are logically equal: the same fields in any order, where an
  absent mapping and an empty one are the same.
\<close>

definition sameOptionalMapping ::
  "(string \<times> json) list option \<Rightarrow> (string \<times> json) list option \<Rightarrow> bool" where
  "sameOptionalMapping p q =
     (case (p, q) of
        (Some a, Some b) \<Rightarrow> sameJson (JObject a) (JObject b)
      | (Some a, None) \<Rightarrow> a = []
      | (None, Some b) \<Rightarrow> b = []
      | (None, None) \<Rightarrow> True)"

text \<open>
  Two records that are logically equal, in the words of the specification: they differ at
  most in the order of fields, in the letter case of the two hashes, and in an empty
  mapping being absent or present. (The order in which the caller wrote the seven fields
  of the record itself is not part of an \<open>InferenceRecord\<close>: \<^verbatim>\<open>prepareForHashing\<close> reads
  them by name.)
\<close>

definition logicallyEqual :: "InferenceRecord \<Rightarrow> InferenceRecord \<Rightarrow> bool" where
  "logicallyEqual r r' =
     (model r = model r' \<and>
      toLowerCase (prompt_hash r) = toLowerCase (prompt_hash r') \<and>
      toLowerCase (output_hash r) = toLowerCase (output_hash r') \<and>
      sameOptionalMapping (parameters r) (parameters r') \<and>
      sameOptionalMapping (inference_context r) (inference_context r') \<and>
      timestamp r = timestamp r' \<and> nonce r = nonce r')"

text \<open>The property that an optional field of a record contributes to its object.\<close>

definition optionalField :: "string \<Rightarrow> ('a \<Rightarrow> json) \<Rightarrow> 'a option \<Rightarrow> (string \<times> json) list" where
  "optionalField k f x = (case x of Some v \<Rightarrow> [(k, f v)] | None \<Rightarrow> [])"

text \<open>
  The loop body of \<^verbatim>\<open>canonicalizeObject\<close> in two parts: the entry that a key contributes
  (\<open>canonEntry\<close>, none for a key that is skipped) and its assignment (\<open>setEntry\<close>).
\<close>

definition setEntry :: "(string \<Rightarrow> json option) \<Rightarrow> (string \<times> json) list \<Rightarrow> string \<Rightarrow> (string \<times> json) list" where
  "setEntry g r k = (case g k of None \<Rightarrow> r | Some c \<Rightarrow> jsSet r k c)"

definition canonEntry :: "(string \<times> json) list \<Rightarrow> string \<Rightarrow> json option" where
  "canonEntry obj k =
     (case map_of obj k of
        None \<Rightarrow> None
      | Some v \<Rightarrow>
          if v \<noteq> JUndefined \<and> canonicalizeValue v \<noteq> JUndefined
          then Some (canonicalizeValue v) else None)"

section \<open>Storage (server/src/storage/storage.ts)\<close>

text \<open>
  \<^verbatim>\<open>AnchorRecord\<close> and \<^verbatim>\<open>VerificationResult\<close> of types/index.ts share field names; the
  fields of the anchor record carry the prefix \<open>anchor_\<close> here.
\<close>

record AnchorRecord =
  anchor_batch_id :: string
  anchor_merkle_root :: string
  anchor_tx_hash :: string
  anchor_block_number :: nat
  anchor_chain_id :: nat
  anchor_chain_name :: string
  anchor_anchored_at :: nat

text \<open>
  The state of the store that verification reads: the values of the two \<^verbatim>\<open>Map\<close>s, in
  the order of their insertion, which is the order in which \<^verbatim>\<open>values()\<close> iterates.
\<close>

record Storage =
  batches :: "MerkleBatch list"
  anchors :: "AnchorRecord list"

definition findBatchContainingHash :: "Storage \<Rightarrow> string \<Rightarrow> MerkleBatch option" where
  "findBatchContainingHash storage inferenceHash =
     (let normalized = toLowerCase inferenceHash
      in find (\<lambda>batch. list_ex (\<lambda>l. toLowerCase l = normalized) (leaves batch))
              (batches storage))"

definition getAnchorByRoot :: "Storage \<Rightarrow> string \<Rightarrow> AnchorRecord option" where
  "getAnchorByRoot storage r =
     (let normalizedRoot = toLowerCase r
      in find (\<lambda>anchor. toLowerCase (anchor_merkle_root anchor) = normalizedRoot)
              (anchors storage))"

section \<open>Verification engine (server/src/verifier/verifier.ts)\<close>

text \<open>
  \<^verbatim>\<open>VerificationResult\<close>; an optional field that a result does not set is \<open>None\<close>. The
  field \<^verbatim>\<open>proof\<close> is \<open>merkle_proof\<close> here.
\<close>

record VerificationResult =
  verified :: bool
  inference_hash :: string
  merkle_root :: "string option"
  anchored_at :: "nat option"
  block_number :: "nat option"
  chain_id :: "nat option"
  chain_name :: "string option"
  tx_hash :: "string option"
  merkle_proof :: "MerkleProof option"
  error :: "string option"

text \<open>The argument \<^verbatim>\<open>input\<close>: \<^verbatim>\<open>{ record?, hash? }\<close>.\<close>

record VerifyInput =
  input_record :: "InferenceRecord option"
  input_hash :: "string option"

record VerifyOptions =
  rpcUrl :: "string option"
  contractAddress :: "string option"

text \<open>
  The read of the registry contract in \<^verbatim>\<open>verifyOnChain\<close> is the parameter \<open>anchoredAt\<close>:
  from the RPC URL, the contract address and the root to the timestamp the contract
  returns, or to what the call throws (\<open>Some message\<close> for an \<^verbatim>\<open>Error\<close>, \<open>None\<close> for
  anything else).
\<close>

type_synonym chain_read = "string \<Rightarrow> string \<Rightarrow> string \<Rightarrow> string option + nat"

record OnChainResult =
  onchain_verified :: bool
  onchain_anchoredAt :: "nat option"
  onchain_error :: "string option"

definition verifyOnChain :: "chain_read \<Rightarrow> string \<Rightarrow> string \<Rightarrow> string \<Rightarrow> string option + OnChainResult" where
  "verifyOnChain anchoredAt merkleRoot url address =
     (case anchoredAt url address merkleRoot of
        Inl thrown \<Rightarrow> Inl thrown
      | Inr t \<Rightarrow>
          if t = 0
          then Inr \<lparr> onchain_verified = False, onchain_anchoredAt = None,
                     onchain_error = Some ''Root not found on-chain'' \<rparr>
          else Inr \<lparr> onchain_verified = True, onchain_anchoredAt = Some t,
                     onchain_error = None \<rparr>)"

text \<open>A result with only the two required fields set.\<close>

definition emptyResult :: "bool \<Rightarrow> string \<Rightarrow> VerificationResult" where
  "emptyResult v h =
     \<lparr> verified = v, inference_hash = h, merkle_root = None, anchored_at = None,
       block_number = None, chain_id = None, chain_name = None, tx_hash = None,
       merkle_proof = None, error = None \<rparr>"

text \<open>
  Steps 2 to 5 of \<^verbatim>\<open>verifyInference\<close>, from the inference hash on. A string is truthy
  when it is not empty; \<^verbatim>\<open>'...' + undefined\<close> appends \<^verbatim>\<open>undefined\<close>.
\<close>

definition verifyFromHash ::
  "sponge \<Rightarrow> Storage \<Rightarrow> chain_read \<Rightarrow> VerifyOptions option \<Rightarrow> string \<Rightarrow> error + VerificationResult" where
  "verifyFromHash K storage anchoredAt options inferenceHash =
     (case findBatchContainingHash storage inferenceHash of
        None \<Rightarrow>
          Inr ((emptyResult False inferenceHash)
                 \<lparr> error := Some ''Inference not found in any batch'' \<rparr>)
      | Some batch \<Rightarrow>
          (case generateProof batch inferenceHash of
             None \<Rightarrow>
               Inr ((emptyResult False inferenceHash)
                      \<lparr> merkle_root := Some (root batch),
                        error := Some ''Failed to generate Merkle proof'' \<rparr>)
           | Some prf \<Rightarrow>
               (case verifyProof K prf of
                  Inl e \<Rightarrow> Inl e
                | Inr valid \<Rightarrow>
                    if \<not> valid
                    then Inr ((emptyResult False inferenceHash)
                                \<lparr> merkle_root := Some (root batch), merkle_proof := Some prf,
                                  error := Some ''Merkle proof verification failed'' \<rparr>)
                    else
                      (case getAnchorByRoot storage (root batch) of
                         None \<Rightarrow>
                           Inr ((emptyResult False inferenceHash)
                                  \<lparr> merkle_root := Some (root batch), merkle_proof := Some prf,
                                    error := Some ''Batch not anchored on-chain'' \<rparr>)
                       | Some anchor \<Rightarrow>
                           (let success =
                                  Inr \<lparr> verified = True, inference_hash = inferenceHash,
                                        merkle_root = Some (root batch),
                                        anchored_at = Some (anchor_anchored_at anchor),
                                        block_number = Some (anchor_block_number anchor),
                                        chain_id = Some (anchor_chain_id anchor),
                                        chain_name = Some (anchor_chain_name anchor),
                                        tx_hash = Some (anchor_tx_hash anchor),
                                        merkle_proof = Some prf, error = None \<rparr>;
                                failure = (\<lambda>message.
                                  Inr ((emptyResult False inferenceHash)
                                         \<lparr> merkle_root := Some (root batch),
                                           tx_hash := Some (anchor_tx_hash anchor),
                                           merkle_proof := Some prf,
                                           error := Some message \<rparr>))
                            in case options of
                                 None \<Rightarrow> success
                               | Some opts \<Rightarrow>
                                   (case (rpcUrl opts, contractAddress opts) of
                                      (Some url, Some address) \<Rightarrow>
                                        if url \<noteq> [] \<and> address \<noteq> []
                                        then (case verifyOnChain anchoredAt (root batch) url address of
                                                Inl thrown \<Rightarrow>
                                                  failure (''On-chain check failed: '' @
                                                    (case thrown of Some message \<Rightarrow> message
                                                                  | None \<Rightarrow> ''Unknown error''))
                                              | Inr onChainResult \<Rightarrow>
                                                  if \<not> onchain_verified onChainResult
                                                  then failure (''On-chain verification failed: '' @
                                                    (case onchain_error onChainResult of
                                                       Some message \<Rightarrow> message
                                                     | None \<Rightarrow> ''undefined''))
                                                  else success)
                                        else success
                                    | _ \<Rightarrow> success))))))"

text \<open>
  \<^verbatim>\<open>verifyInference\<close>. Step 1 takes the hash from the record when there is one (an object
  is always truthy), else from a non-empty \<^verbatim>\<open>input.hash\<close>.
\<close>

definition verifyInference ::
  "sponge \<Rightarrow> Storage \<Rightarrow> chain_read \<Rightarrow> VerifyInput \<Rightarrow> VerifyOptions option \<Rightarrow> error + VerificationResult" where
  "verifyInference K storage anchoredAt input options =
     (case input_record input of
        Some record' \<Rightarrow>
          (case hashInference K record' of
             Inl e \<Rightarrow> Inl e
           | Inr inferenceHash \<Rightarrow>
               (case input_hash input of
                  None \<Rightarrow> verifyFromHash K storage anchoredAt options inferenceHash
                | Some h \<Rightarrow>
                    if h = [] then verifyFromHash K storage anchoredAt options inferenceHash
                    else (case verifyInferenceHash K record' h of
                            Inl e \<Rightarrow> Inl e
                          | Inr matches \<Rightarrow>
                              if \<not> matches
                              then Inr ((emptyResult False inferenceHash)
                                     \<lparr> error := Some ''Provided hash does not match computed hash from record'' \<rparr>)
                              else verifyFromHash K storage anchoredAt options inferenceHash)))
      | None \<Rightarrow>
          (case input_hash input of
             Some h \<Rightarrow>
               if h \<noteq> [] then verifyFromHash K storage anchoredAt options h
               else Inr ((emptyResult False [])
                           \<lparr> error := Some ''Must provide either record or hash'' \<rparr>)
           | None \<Rightarrow>
               Inr ((emptyResult False [])
                      \<lparr> error := Some ''Must provide either record or hash'' \<rparr>)))"

section \<open>Facts about strings and digests\<close>

lemma buildNextLevel_length:
  "buildNextLevel K level = Inr nxt \<Longrightarrow> length nxt = (length level + 1) div 2"
  by (induction K level arbitrary: nxt rule: buildNextLevel.induct)
     (auto split: sum.splits)


lemma toLowerChar_idem: "toLowerChar (toLowerChar c) = toLowerChar c"
  unfolding toLowerChar_def Let_def
  by (auto simp: mod_if)

lemma toLowerCase_idem: "toLowerCase (toLowerCase s) = toLowerCase s"
  by (simp add: toLowerCase_def toLowerChar_idem)

lemma toLowerCase_0x: "toLowerCase ''0x'' = ''0x''"
  by (simp add: toLowerCase_def toLowerChar_def)

lemma toLowerCase_append: "toLowerCase (a @ b) = toLowerCase a @ toLowerCase b"
  by (simp add: toLowerCase_def)

lemma toLowerCase_drop: "toLowerCase (drop n s) = drop n (toLowerCase s)"
  by (simp add: toLowerCase_def drop_map)

lemma toLowerCase_take: "toLowerCase (take n s) = take n (toLowerCase s)"
  by (simp add: toLowerCase_def take_map)

lemma toLowerCase_replace0x:
  "toLowerCase s = s \<Longrightarrow> toLowerCase (replace0x s) = replace0x s"
  by (simp add: replace0x_def toLowerCase_drop)

lemma replace0x_0x: "replace0x (''0x'' @ s) = s"
  by (simp add: replace0x_def)

lemma toLowerCase_normalizeHash: "toLowerCase (normalizeHash h) = normalizeHash h"
  by (simp add: normalizeHash_def toLowerCase_append toLowerCase_0x toLowerCase_replace0x toLowerCase_idem del: append.simps)

lemma normalizeHash_idem: "normalizeHash (normalizeHash h) = normalizeHash h"
  using toLowerCase_normalizeHash[of h] unfolding normalizeHash_def Let_def
  by (simp add: replace0x_0x del: append.simps)

lemma normalizeHash_toLowerCase: "normalizeHash (toLowerCase h) = normalizeHash h"
  by (simp add: normalizeHash_def toLowerCase_idem)

lemma normalizeHash_nonempty: "normalizeHash h \<noteq> []"
  by (simp add: normalizeHash_def)

lemma hexChar_mem: "hexChar n \<in> set ''0123456789abcdef''"
  unfolding hexChar_def by (rule nth_mem) simp

lemma hexChar_lower: "toLowerChar (hexChar n) = hexChar n"
proof -
  have "\<forall>c \<in> set ''0123456789abcdef''. toLowerChar c = c"
    by (simp add: toLowerChar_def)
  then show ?thesis using hexChar_mem by blast
qed

lemma hexlify_lower: "toLowerCase (hexlify w) = hexlify w"
proof -
  have "toLowerCase ''0x'' = ''0x''" by (simp add: toLowerCase_def toLowerChar_def)
  then show ?thesis
    unfolding hexlify_def toLowerCase_append
    by (simp add: toLowerCase_def hexChar_lower del: append.simps)
qed

lemma normalizeHash_hexlify: "normalizeHash (hexlify w) = hexlify w"
  unfolding normalizeHash_def Let_def hexlify_lower
  by (simp add: hexlify_def replace0x_def)

lemma hexlify_nonempty: "hexlify w \<noteq> []"
  by (simp add: hexlify_def)


section \<open>The tree, its proofs and their verification\<close>

lemma sort_pair: "sort [a, b :: string] = [min a b, max a b]"
  by (auto simp: min_def max_def)

lemma hashPair_eq:
  "hashPair K a b =
     keccak256 K (min (normalizeHash a) (normalizeHash b) @ drop 2 (max (normalizeHash a) (normalizeHash b)))"
  unfolding hashPair_def Let_def sort_pair by simp

lemma hashPair_comm: "hashPair K a b = hashPair K b a"
  by (simp add: hashPair_eq min.commute max.commute)

lemma hashPair_normalizeHash_left: "hashPair K (normalizeHash a) b = hashPair K a b"
  by (simp add: hashPair_eq normalizeHash_idem)

lemma keccak256_normal: "keccak256 K d = Inr h \<Longrightarrow> normalizeHash h = h"
  by (auto simp: keccak256_def normalizeHash_hexlify split: sum.splits)

lemma hashPair_normal: "hashPair K a b = Inr h \<Longrightarrow> normalizeHash h = h"
  unfolding hashPair_eq by (rule keccak256_normal)

lemma normal_nonempty: "normalizeHash x = x \<Longrightarrow> x \<noteq> []"
  using normalizeHash_nonempty [of x] by simp

lemma buildNextLevel_nth:
  "buildNextLevel K level = Inr nxt \<Longrightarrow> i < length level \<Longrightarrow>
     hashPair K (level ! i) (siblingOf level i) = Inr (nxt ! (i div 2))"
proof (induction K level arbitrary: nxt i rule: buildNextLevel.induct)
  case (1 K)
  then show ?case by simp
next
  case (2 K left)
  then show ?case by (auto simp: siblingOf_def split: sum.splits)
next
  case (3 K left right rest)
  from "3.prems"(1) obtain h hs where h: "hashPair K left right = Inr h"
    and hs: "buildNextLevel K rest = Inr hs" and nxt: "nxt = h # hs"
    by (auto split: sum.splits)
  consider "i = 0" | "i = 1" | j where "i = Suc (Suc j)"
    by (metis One_nat_def not0_implies_Suc)
  then show ?case
  proof cases
    case 1
    then show ?thesis using h nxt by (simp add: siblingOf_def)
  next
    case 2
    then show ?thesis using h nxt hashPair_comm [of K right left] by (simp add: siblingOf_def)
  next
    case 3
    with "3.prems"(2) have j: "j < length rest" by simp
    have sib: "siblingOf (left # right # rest) (Suc (Suc j)) = siblingOf rest j"
      unfolding siblingOf_def Let_def by (auto simp: mod_Suc nth_Cons')
    have "hashPair K (rest ! j) (siblingOf rest j) = Inr (hs ! (j div 2))"
      using "3.IH" [OF h hs j] .
    then show ?thesis using 3 nxt sib by simp
  qed
qed

lemma buildNextLevel_normal:
  "buildNextLevel K level = Inr nxt \<Longrightarrow> x \<in> set nxt \<Longrightarrow> normalizeHash x = x"
  by (induction K level arbitrary: nxt rule: buildNextLevel.induct)
     (auto split: sum.splits dest: hashPair_normal)

lemma buildTreeLoop_acc:
  "buildTreeLoop K (acc @ ls) cur =
     (case buildTreeLoop K ls cur of Inl e \<Rightarrow> Inl e | Inr t \<Rightarrow> Inr (acc @ t))"
proof (induction K ls cur rule: buildTreeLoop.induct)
  case (1 K levels currentLevel)
  show ?case
  proof (cases "1 < length currentLevel")
    case False
    then show ?thesis by (simp add: buildTreeLoop.simps)
  next
    case True
    show ?thesis
    proof (cases "buildNextLevel K currentLevel")
      case (Inl e)
      with True show ?thesis by (simp add: buildTreeLoop.simps)
    next
      case (Inr nxt)
      with True "1.IH" [OF True Inr] show ?thesis
        by (simp add: buildTreeLoop.simps [of K "acc @ levels"] buildTreeLoop.simps [of K levels])
    qed
  qed
qed

lemma buildTreeLoop_unfold:
  "buildTreeLoop K [cur] cur =
     (if 1 < length cur
      then (case buildNextLevel K cur of
              Inl e \<Rightarrow> Inl e
            | Inr nxt \<Rightarrow> (case buildTreeLoop K [nxt] nxt of Inl e \<Rightarrow> Inl e | Inr t \<Rightarrow> Inr (cur # t)))
      else Inr [cur])"
  using buildTreeLoop_acc [of K "[cur]" "[nxt]" nxt for nxt]
  by (simp add: buildTreeLoop.simps [of K "[cur]" cur] split: sum.splits)

lemma buildTreeLoop_hd:
  "buildTreeLoop K [cur] cur = Inr t \<Longrightarrow> t \<noteq> [] \<and> hd t = cur"
  by (subst (asm) buildTreeLoop_unfold) (auto split: if_splits sum.splits)

lemma generateProofLoop_Cons:
  "generateProofLoop (level # rest) i acc = generateProofLoop rest (i div 2) (acc @ pushed level i)"
  by (simp add: pushed_def Let_def split: option.splits)

lemma generateProofLoop_acc:
  "generateProofLoop ls i acc = acc @ generateProofLoop ls i []"
proof (induction ls arbitrary: i acc)
  case Nil
  then show ?case by simp
next
  case (Cons l ls)
  show ?case
    unfolding generateProofLoop_Cons
    using Cons.IH [of "i div 2" "acc @ pushed l i"] Cons.IH [of "i div 2" "[] @ pushed l i"]
    by simp
qed

lemma generateProofLoop_step:
  assumes "i < length level" and "\<forall>x \<in> set level. x \<noteq> []"
  shows "generateProofLoop (level # rest) i [] = siblingOf level i # generateProofLoop rest (i div 2) []"
proof -
  have "siblingOf level i \<in> set level"
    using assms(1) by (auto simp: siblingOf_def Let_def)
  then have ne: "siblingOf level i \<noteq> []" using assms(2) by blast
  have "(case at level (if i mod 2 = 1 then i - 1 else i + 1) of
           Some s \<Rightarrow> Some s | None \<Rightarrow> at level i) = Some (siblingOf level i)"
    using assms(1) by (auto simp: at_def siblingOf_def Let_def)
  then have "pushed level i = [siblingOf level i]"
    using ne by (simp add: pushed_def)
  then show ?thesis
    unfolding generateProofLoop_Cons
    using generateProofLoop_acc [of rest "i div 2" "[siblingOf level i]"]
    by simp
qed

lemma tree_path:
  "buildTreeLoop K [cur] cur = Inr t \<Longrightarrow> i < length cur \<Longrightarrow>
   \<forall>x \<in> set cur. normalizeHash x = x \<Longrightarrow>
   \<exists>r. last t = [r] \<and> normalizeHash r = r \<and>
       verifyProofLoop K (cur ! i) (generateProofLoop (butlast t) i []) = Inr r"
proof (induction "length cur" arbitrary: cur t i rule: less_induct)
  case less
  show ?case
  proof (cases "1 < length cur")
    case False
    with less.prems(2) have len: "length cur = 1" by simp
    then obtain x where cur: "cur = [x]" by (cases cur) auto
    from less.prems(1) False have "t = [cur]"
      by (subst (asm) buildTreeLoop_unfold) simp
    with cur less.prems show ?thesis by simp
  next
    case True
    with less.prems(1) obtain nxt t' where nxt: "buildNextLevel K cur = Inr nxt"
      and t': "buildTreeLoop K [nxt] nxt = Inr t'" and t: "t = cur # t'"
      by (subst (asm) buildTreeLoop_unfold) (auto split: sum.splits)
    have lnxt: "length nxt = (length cur + 1) div 2"
      using buildNextLevel_length [OF nxt] .
    with True have smaller: "length nxt < length cur" by simp
    have i2: "i div 2 < length nxt" using lnxt less.prems(2) by simp
    have normal': "\<forall>x \<in> set nxt. normalizeHash x = x"
      using buildNextLevel_normal [OF nxt] by blast
    from less.hyps [OF smaller t' i2 normal'] obtain r where
      r: "last t' = [r]" "normalizeHash r = r"
         "verifyProofLoop K (nxt ! (i div 2)) (generateProofLoop (butlast t') (i div 2) []) = Inr r"
      by blast
    have t'ne: "t' \<noteq> []" using buildTreeLoop_hd [OF t'] by simp
    have ne: "\<forall>x \<in> set cur. x \<noteq> []" using less.prems(3) normal_nonempty by blast
    have step: "hashPair K (cur ! i) (siblingOf cur i) = Inr (nxt ! (i div 2))"
      using buildNextLevel_nth [OF nxt less.prems(2)] .
    have "generateProofLoop (butlast t) i [] =
            siblingOf cur i # generateProofLoop (butlast t') (i div 2) []"
      using t t'ne generateProofLoop_step [OF less.prems(2) ne] by simp
    then show ?thesis using r step t t'ne by simp
  qed
qed


lemma isHexDigit_hexChar: "isHexDigit (hexChar n)"
proof -
  have "\<forall>c \<in> set ''0123456789abcdef''. isHexDigit c"
    by (simp add: isHexDigit_def)
  then show ?thesis using hexChar_mem by blast
qed

lemma isBytesLike_hexlify: "isBytesLike (hexlify w)"
  by (simp add: isBytesLike_def hexlify_def list_all_iff isHexDigit_hexChar)

lemma isBytesLike_combined:
  assumes "isBytesLike x" and "isBytesLike y"
  shows "isBytesLike (x @ drop 2 y)"
proof -
  from assms have "2 \<le> length x" "2 \<le> length y"
    by (auto simp: isBytesLike_def dest!: arg_cong [where f = length])
  with assms show ?thesis
    by (auto simp: isBytesLike_def)
qed

lemma hashPair_ok:
  assumes "isBytesLike (normalizeHash a)" and "isBytesLike (normalizeHash b)"
  shows "\<exists>h. hashPair K a b = Inr h"
proof -
  have "isBytesLike (min (normalizeHash a) (normalizeHash b) @ drop 2 (max (normalizeHash a) (normalizeHash b)))"
    using assms by (intro isBytesLike_combined) (auto simp: min_def max_def)
  then show ?thesis
    by (simp add: hashPair_eq keccak256_def getBytes_def)
qed

lemma hashPair_hex: "hashPair K a b = Inr h \<Longrightarrow> isBytesLike (normalizeHash h)"
  by (auto simp: hashPair_eq keccak256_def normalizeHash_hexlify isBytesLike_hexlify split: sum.splits)

lemma buildNextLevel_ok:
  "\<forall>x \<in> set level. isBytesLike (normalizeHash x) \<Longrightarrow> \<exists>nxt. buildNextLevel K level = Inr nxt"
proof (induction K level rule: buildNextLevel.induct)
  case (1 K)
  then show ?case by simp
next
  case (2 K left)
  then show ?case using hashPair_ok [of left left K] by auto
next
  case (3 K left right rest)
  from "3.prems" obtain h where h: "hashPair K left right = Inr h"
    using hashPair_ok [of left right K] by auto
  from "3.IH" [OF h] "3.prems" obtain hs where "buildNextLevel K rest = Inr hs" by auto
  with h show ?case by simp
qed

lemma buildNextLevel_hex:
  "buildNextLevel K level = Inr nxt \<Longrightarrow> x \<in> set nxt \<Longrightarrow> isBytesLike (normalizeHash x)"
  by (induction K level arbitrary: nxt rule: buildNextLevel.induct)
     (auto split: sum.splits dest: hashPair_hex)

lemma buildTreeLoop_ok:
  "\<forall>x \<in> set cur. isBytesLike (normalizeHash x) \<Longrightarrow> \<exists>t. buildTreeLoop K [cur] cur = Inr t"
proof (induction "length cur" arbitrary: cur rule: less_induct)
  case less
  show ?case
  proof (cases "1 < length cur")
    case False
    then show ?thesis by (subst buildTreeLoop_unfold) simp
  next
    case True
    from buildNextLevel_ok [OF less.prems] obtain nxt where nxt: "buildNextLevel K cur = Inr nxt"
      by blast
    have "length nxt < length cur"
      using buildNextLevel_length [OF nxt] True by simp
    moreover have "\<forall>x \<in> set nxt. isBytesLike (normalizeHash x)"
      using buildNextLevel_hex [OF nxt] by blast
    ultimately obtain t' where "buildTreeLoop K [nxt] nxt = Inr t'"
      using less.hyps by blast
    with nxt True show ?thesis by (subst buildTreeLoop_unfold) simp
  qed
qed




lemma buildMerkleBatch_ok:
  assumes "S \<noteq> []" and "\<forall>s \<in> set S. isBytesLike (normalizeHash s)"
  shows "\<exists>b. buildMerkleBatch K newId now S = Inr b"
proof -
  define cur where "cur = sort (map normalizeHash S)"
  have hex: "\<forall>x \<in> set cur. isBytesLike (normalizeHash x)"
    using assms(2) by (auto simp: cur_def normalizeHash_idem)
  have normal: "\<forall>x \<in> set cur. normalizeHash x = x"
    by (auto simp: cur_def normalizeHash_idem)
  from buildTreeLoop_ok [OF hex] obtain t where loop: "buildTreeLoop K [cur] cur = Inr t"
    by blast
  have "0 < length cur" using assms(1) by (simp add: cur_def)
  from tree_path [OF loop this normal] obtain r where r: "last t = [r]" "normalizeHash r = r"
    by blast
  from buildTreeLoop_hd [OF loop] have "t \<noteq> []" by simp
  moreover have "r \<noteq> []" using r(2) normal_nonempty by blast
  moreover have "buildTree K S = Inr t"
    using assms(1) loop by (simp add: buildTree_def cur_def Let_def)
  ultimately show ?thesis
    using assms(1) r(1) by (simp add: buildMerkleBatch_def)
qed



lemma sort_cong_mset: "mset xs = mset ys \<Longrightarrow> sort xs = sort (ys :: string list)"
  by (metis properties_for_sort sorted_sort mset_sort)

lemma map_normalizeHash_lower: "map normalizeHash (map toLowerCase xs) = map normalizeHash xs"
  by (simp add: normalizeHash_toLowerCase)

lemma sorted_leaves_cong:
  assumes "mset (map toLowerCase P) = mset (map toLowerCase S)"
  shows "sort (map normalizeHash P) = sort (map normalizeHash S)"
proof -
  have "mset (map normalizeHash (map toLowerCase P)) = mset (map normalizeHash (map toLowerCase S))"
    using assms by (metis mset_map)
  then show ?thesis
    unfolding map_normalizeHash_lower by (rule sort_cong_mset)
qed

lemma buildTree_cong:
  assumes "mset (map toLowerCase P) = mset (map toLowerCase S)"
  shows "buildTree K P = buildTree K S"
proof -
  have "length P = length S"
    using assms by (metis length_map size_mset)
  then show ?thesis
    using sorted_leaves_cong [OF assms] by (simp add: buildTree_def)
qed





section \<open>What a verifying proof binds\<close>


lemma hexChar_inj: "m < 16 \<Longrightarrow> n < 16 \<Longrightarrow> hexChar m = hexChar n \<Longrightarrow> m = n"
proof -
  assume m: "m < 16" and n: "n < 16" and eq: "hexChar m = hexChar n"
  have d: "distinct ''0123456789abcdef''" by simp
  have "''0123456789abcdef'' ! m = ''0123456789abcdef'' ! n"
    using eq m n by (simp add: hexChar_def)
  with d m n show "m = n"
    by (simp add: nth_eq_iff_index_eq)
qed

lemma nibble_less: "unat ((x :: 256 word) AND 15) < 16"
proof -
  have "unat (x AND 15) \<le> unat (15 :: 256 word)"
    by (rule word_and_le1 [THEN word_le_nat_alt [THEN iffD1]])
  then show ?thesis by simp
qed

lemma hexlify_inj: "hexlify a = hexlify b \<Longrightarrow> a = b"
proof -
  assume eq: "hexlify a = hexlify b"
  have nib: "drop_bit (4 * (63 - i)) a AND 15 = drop_bit (4 * (63 - i)) b AND 15" if "i < 64" for i
  proof -
    from eq have "map (\<lambda>i. hexChar (unat (drop_bit (4 * (63 - i)) a AND 15))) [0..<64] =
                  map (\<lambda>i. hexChar (unat (drop_bit (4 * (63 - i)) b AND 15))) [0..<64]"
      by (simp add: hexlify_def)
    with that have "hexChar (unat (drop_bit (4 * (63 - i)) a AND 15)) =
                    hexChar (unat (drop_bit (4 * (63 - i)) b AND 15))"
      by (simp del: upt_rec_numeral)
    then have "unat (drop_bit (4 * (63 - i)) a AND 15) = unat (drop_bit (4 * (63 - i)) b AND 15)"
      using hexChar_inj nibble_less by blast
    then show ?thesis by (rule unsigned_word_eqI)
  qed
  show "a = b"
  proof (rule bit_word_eqI)
    fix n :: nat
    assume "n < LENGTH(256)"
    then have n: "n < 256" by simp
    define i where "i = 63 - n div 4"
    have i: "i < 64" "4 * (63 - i) = 4 * (n div 4)"
      using n by (simp_all add: i_def)
    have b15: "bit (15 :: 256 word) (n mod 4)"
    proof -
      have "n mod 4 \<in> {0, 1, 2, 3}" by auto
      then show ?thesis by (auto simp: bit_numeral_rec)
    qed
    have "bit (drop_bit (4 * (n div 4)) a AND 15) (n mod 4) =
          bit (drop_bit (4 * (n div 4)) b AND 15) (n mod 4)"
      using nib [OF i(1)] i(2) by simp
    then show "bit a n = bit b n"
      using b15 by (simp add: bit_and_iff bit_drop_bit_eq)
  qed
qed


lemma hexValue_less: "isHexDigit c \<Longrightarrow> hexValue c < 16"
  by (auto simp: isHexDigit_def hexValue_def Let_def)

lemma hexValue_inj:
  assumes "isHexDigit c" "isHexDigit d" "toLowerChar c = c" "toLowerChar d = d"
    and "hexValue c = hexValue d"
  shows "c = d"
proof -
  have lc: "\<not> (65 \<le> (of_char c :: nat) \<and> (of_char c :: nat) \<le> 70)"
  proof
    assume a: "65 \<le> (of_char c :: nat) \<and> (of_char c :: nat) \<le> 70"
    then have "toLowerChar c = char_of ((of_char c :: nat) + 32)"
      by (simp add: toLowerChar_def)
    with assms(3) have "(of_char (char_of ((of_char c :: nat) + 32)) :: nat) = of_char c"
      by simp
    with a show False by simp
  qed
  have ld: "\<not> (65 \<le> (of_char d :: nat) \<and> (of_char d :: nat) \<le> 70)"
  proof
    assume a: "65 \<le> (of_char d :: nat) \<and> (of_char d :: nat) \<le> 70"
    then have "toLowerChar d = char_of ((of_char d :: nat) + 32)"
      by (simp add: toLowerChar_def)
    with assms(4) have "(of_char (char_of ((of_char d :: nat) + 32)) :: nat) = of_char d"
      by simp
    with a show False by simp
  qed
  define m n where "m = (of_char c :: nat)" and "n = (of_char d :: nat)"
  have "m = n"
    using assms(1,2,5) lc ld unfolding isHexDigit_def hexValue_def Let_def m_def [symmetric] n_def [symmetric]
    by (auto split: if_splits)
  then show ?thesis by (simp add: m_def n_def)
qed

lemma byte_inj:
  assumes "h < 16" "l < 16" "h' < 16" "l' < 16"
    and "(of_nat (16 * h + l) :: 8 word) = of_nat (16 * h' + l')"
  shows "h = h' \<and> l = l'"
proof -
  have lt: "16 * h + l < 2 ^ 8" "16 * h' + l' < 2 ^ 8" using assms(1-4) by simp_all
  have a: "take_bit 8 (16 * h + l) = 16 * h + l"
    using lt(1) by (rule take_bit_nat_eq_self)
  have b: "take_bit 8 (16 * h' + l') = 16 * h' + l'"
    using lt(2) by (rule take_bit_nat_eq_self)
  have "take_bit LENGTH(8) (16 * h + l) = take_bit LENGTH(8) (16 * h' + l')"
    using assms(5) by (simp only: word_of_nat_eq_iff)
  then have "take_bit 8 (16 * h + l) = take_bit 8 (16 * h' + l')" by simp
  then have eq: "16 * h + l = 16 * h' + l'" using a b by simp
  have "(16 * h + l) div 16 = h" "(16 * h' + l') div 16 = h'"
    using assms(1-4) by simp_all
  with eq have "h = h'" by simp
  with eq show ?thesis by simp
qed

lemma hexPairs_inj:
  "list_all lowerHex xs \<Longrightarrow> list_all lowerHex ys \<Longrightarrow> even (length xs) \<Longrightarrow> even (length ys) \<Longrightarrow>
   hexPairs xs = hexPairs ys \<Longrightarrow> xs = ys"
proof (induction xs arbitrary: ys rule: hexPairs.induct)
  case (1 hi lo rest)
  then obtain hi' lo' rest' where ys: "ys = hi' # lo' # rest'"
    by (cases ys rule: hexPairs.cases) auto
  from "1.prems" ys have b: "(of_nat (16 * hexValue hi + hexValue lo) :: 8 word) =
      of_nat (16 * hexValue hi' + hexValue lo')" and r: "hexPairs rest = hexPairs rest'"
    by simp_all
  from "1.prems" ys have d: "lowerHex hi" "lowerHex lo" "lowerHex hi'" "lowerHex lo'"
    by simp_all
  then have "hexValue hi = hexValue hi' \<and> hexValue lo = hexValue lo'"
    using byte_inj [OF _ _ _ _ b] by (simp add: lowerHex_def hexValue_less)
  with d have "hi = hi'" "lo = lo'"
    by (auto simp: lowerHex_def intro: hexValue_inj)
  moreover have "rest = rest'"
    using "1.IH" [of rest'] "1.prems" ys r by simp
  ultimately show ?case using ys by simp
next
  case "2_1"
  then show ?case by (cases ys rule: hexPairs.cases) auto
next
  case "2_2"
  then show ?case by simp
qed

lemma map_fixed: "map f xs = xs \<longleftrightarrow> (\<forall>x \<in> set xs. f x = x)"
  by (induction xs) auto

lemma getBytes_inj:
  assumes "getBytes s = Inr b" "getBytes s' = Inr b" "toLowerCase s = s" "toLowerCase s' = s'"
  shows "s = s'"
proof -
  have pre: "take 2 t = ''0x'' \<and> list_all lowerHex (drop 2 t) \<and> even (length (drop 2 t)) \<and>
             hexPairs (drop 2 t) = b"
    if "getBytes t = Inr b" "toLowerCase t = t" for t
  proof -
    from that(1) have bl: "isBytesLike t" and hp: "hexPairs (drop 2 t) = b"
      by (auto simp: getBytes_def split: if_splits)
    from that(2) have fx: "\<forall>c \<in> set t. toLowerChar c = c"
      by (simp add: toLowerCase_def map_fixed)
    have "take 2 t \<noteq> ''0X''"
    proof
      assume a: "take 2 t = ''0X''"
      then have "CHR ''X'' \<in> set (take 2 t)" by simp
      then have "CHR ''X'' \<in> set t" by (rule in_set_takeD)
      with fx have "toLowerChar CHR ''X'' = CHR ''X''" by blast
      then show False by (simp add: toLowerChar_def char_of_eq_iff)
    qed
    with bl have t2: "take 2 t = ''0x''" by (simp add: isBytesLike_def)
    then have "2 \<le> length t" by (auto dest!: arg_cong [where f = length])
    with bl have ev: "even (length (drop 2 t))" by (simp add: isBytesLike_def)
    have "list_all lowerHex (drop 2 t)"
      using bl fx by (auto simp: isBytesLike_def list_all_iff lowerHex_def dest: in_set_dropD)
    with t2 ev hp show ?thesis by simp
  qed
  from pre [OF assms(1,3)] pre [OF assms(2,4)]
  have "drop 2 s = drop 2 s'" "take 2 s = take 2 s'"
    by (auto intro: hexPairs_inj)
  then show ?thesis by (metis append_take_drop_id)
qed


lemma normalizeHash_take2: "take 2 (normalizeHash s) = ''0x''"
  by (simp add: normalizeHash_def)

lemma length_hexlify: "length (hexlify w) = 66"
  by (simp add: hexlify_def)

lemma isContentHash_hexlify: "isContentHash (hexlify w)"
  by (simp add: isContentHash_def normalizeHash_hexlify length_hexlify isBytesLike_hexlify)

lemma hashPair_isContentHash: "hashPair K a b = Inr h \<Longrightarrow> isContentHash h"
  by (auto simp: hashPair_eq keccak256_def isContentHash_hexlify split: sum.splits)

lemma combined_split:
  assumes "length x = 66" "length y = 66" "length x' = 66" "length y' = 66"
    and "take 2 x = ''0x''" "take 2 y = ''0x''" "take 2 x' = ''0x''" "take 2 y' = ''0x''"
    and eq: "min x y @ drop 2 (max x y) = min x' y' @ drop 2 (max x' y')"
  shows "min x y = min x' y' \<and> max x y = max x' y'"
proof -
  have "length (min x y) = length (min x' y')"
    using assms(1-4) by (simp add: min_def)
  with eq have m: "min x y = min x' y'" and d: "drop 2 (max x y) = drop 2 (max x' y')"
    by simp_all
  have "take 2 (max x y) = take 2 (max x' y')"
    using assms(5-8) by (simp add: max_def)
  with d have "max x y = max x' y'"
    by (metis append_take_drop_id)
  with m show ?thesis by simp
qed

lemma toLowerCase_combined:
  "toLowerCase (min (normalizeHash a) (normalizeHash b) @ drop 2 (max (normalizeHash a) (normalizeHash b))) =
   min (normalizeHash a) (normalizeHash b) @ drop 2 (max (normalizeHash a) (normalizeHash b))"
  by (simp add: toLowerCase_append toLowerCase_drop min_def max_def toLowerCase_normalizeHash)

lemma pair_cancel:
  fixes x y x' :: string
  shows "min x y = min x' y \<Longrightarrow> max x y = max x' y \<Longrightarrow> x = x'"
  by (auto simp: min_def max_def split: if_splits)

lemma hashPair_cong: 
  "normalizeHash a = normalizeHash a' \<Longrightarrow> normalizeHash b = normalizeHash b' \<Longrightarrow>
     hashPair K a b = hashPair K a' b'"
  by (simp add: hashPair_eq)

lemma verifyProofLoop_cong:
  "normalizeHash c = normalizeHash c' \<Longrightarrow> map normalizeHash path = map normalizeHash path' \<Longrightarrow>
     path \<noteq> [] \<Longrightarrow> verifyProofLoop K c path = verifyProofLoop K c' path'"
proof (induction path arbitrary: c c' path')
  case Nil
  then show ?case by simp
next
  case (Cons s rest)
  then obtain s' rest' where p': "path' = s' # rest'" by (cases path') auto
  with Cons.prems have eq: "hashPair K c s = hashPair K c' s'" and r: "map normalizeHash rest = map normalizeHash rest'"
    by (auto intro: hashPair_cong)
  show ?case
  proof (cases rest)
    case Nil
    with r have "rest' = []" by simp
    with Nil p' eq show ?thesis by simp
  next
    case (Cons a list)
    with Cons.IH [OF refl r] p' eq show ?thesis by (simp split: sum.splits)
  qed
qed

lemma verifyProofLoop_normal:
  "verifyProofLoop K c path = Inr r \<Longrightarrow> normalizeHash c = c \<Longrightarrow> normalizeHash r = r"
  by (induction path arbitrary: c) (auto split: sum.splits dest: hashPair_normal)

lemma verifyProofLoop_isContentHash:
  "verifyProofLoop K c path = Inr r \<Longrightarrow> isContentHash c \<Longrightarrow> isContentHash r"
  by (induction path arbitrary: c) (auto split: sum.splits dest: hashPair_isContentHash)

lemma verifyProofLoop_ok:
  "isContentHash c \<Longrightarrow> \<forall>s \<in> set path. isContentHash s \<Longrightarrow> \<exists>r. verifyProofLoop K c path = Inr r"
proof (induction path arbitrary: c)
  case Nil
  then show ?case by simp
next
  case (Cons s rest)
  then obtain h where h: "hashPair K c s = Inr h"
    using hashPair_ok [of c s K] by (auto simp: isContentHash_def)
  with Cons.IH [of h] Cons.prems hashPair_isContentHash [OF h] show ?case by simp
qed

lemma verifyProofLoop_append:
  "verifyProofLoop K c (xs @ ys) =
     (case verifyProofLoop K c xs of Inl e \<Rightarrow> Inl e | Inr m \<Rightarrow> verifyProofLoop K m ys)"
  by (induction xs arbitrary: c) (auto split: sum.splits)

lemma verifyProof_iff:
  "verifyProof K p = Inr v \<longleftrightarrow>
     (\<exists>r. verifyProofLoop K (normalizeHash (leaf p)) (proof_path p) = Inr r \<and>
          v = (r = normalizeHash (proof_root p)))"
proof -
  have "toLowerCase r = toLowerCase (normalizeHash (proof_root p)) \<longleftrightarrow> r = normalizeHash (proof_root p)"
    if "verifyProofLoop K (normalizeHash (leaf p)) (proof_path p) = Inr r" for r
    using verifyProofLoop_normal [OF that] toLowerCase_normalizeHash [of r]
    by (simp add: normalizeHash_idem toLowerCase_normalizeHash)
  then show ?thesis
    by (auto simp: verifyProof_def split: sum.splits)
qed

section \<open>The digest inputs along a proof path\<close>

text \<open>
  What \<^verbatim>\<open>hashPair\<close> hashes, and the two runs of the loop of \<^verbatim>\<open>verifyProof\<close> from two
  different starts: where the digest is injective on the byte strings that the two runs
  hash, they end in different hashes.
\<close>

lemma combined_eq:
  "combined a b = min (normalizeHash a) (normalizeHash b) @ drop 2 (max (normalizeHash a) (normalizeHash b))"
  by (simp add: combined_def sort_pair)

lemma combined_comm: "combined a b = combined b a"
  by (simp add: combined_eq min.commute max.commute)

lemma hashPair_combined: "hashPair K a b = keccak256 K (combined a b)"
  by (simp add: hashPair_eq combined_eq)

lemma hashPair_bytes:
  "hashPair K a b = Inr h \<longleftrightarrow> (\<exists>bs. getBytes (combined a b) = Inr bs \<and> h = hexlify (K bs))"
  by (auto simp: hashPair_combined keccak256_def split: sum.splits)

lemma combined_inj_left:
  assumes "getBytes (combined a b) = Inr bs" and "getBytes (combined a' b) = Inr bs"
    and "isContentHash a" "isContentHash b" "isContentHash a'"
  shows "normalizeHash a = normalizeHash a'"
proof -
  have "combined a b = combined a' b"
    using assms(1,2)
    by (intro getBytes_inj [of "combined a b" bs "combined a' b"])
       (simp_all add: combined_eq toLowerCase_combined)
  then have "min (normalizeHash a) (normalizeHash b) = min (normalizeHash a') (normalizeHash b) \<and>
             max (normalizeHash a) (normalizeHash b) = max (normalizeHash a') (normalizeHash b)"
    using assms(3-5)
      combined_split [of "normalizeHash a" "normalizeHash b" "normalizeHash a'" "normalizeHash b"]
    by (simp add: combined_eq isContentHash_def normalizeHash_take2)
  then show ?thesis
    using pair_cancel by blast
qed

lemma combined_inj_right:
  assumes "getBytes (combined a b) = Inr bs" and "getBytes (combined a b') = Inr bs"
    and "isContentHash a" "isContentHash b" "isContentHash b'"
  shows "normalizeHash b = normalizeHash b'"
  using combined_inj_left [of b a bs b'] assms by (simp add: combined_comm)

lemma hashedBytes_Cons:
  assumes "hashPair K c s = Inr h"
  shows "\<exists>bs. getBytes (combined c s) = Inr bs \<and> h = hexlify (K bs) \<and>
              hashedBytes K c (s # rest) = bs # hashedBytes K h rest"
  using assms by (auto simp: hashPair_bytes)

lemma hashedBytes_normalizeHash: "hashedBytes K (normalizeHash c) path = hashedBytes K c path"
  by (cases path) (simp_all add: combined_eq normalizeHash_idem)

lemma hashedBytes_append:
  "verifyProofLoop K c xs = Inr m \<Longrightarrow>
     hashedBytes K c (xs @ ys) = hashedBytes K c xs @ hashedBytes K m ys"
proof (induction xs arbitrary: c)
  case Nil
  then show ?case by simp
next
  case (Cons s xs)
  from Cons.prems obtain h where h: "hashPair K c s = Inr h" "verifyProofLoop K h xs = Inr m"
    by (auto split: sum.splits)
  from h(1) obtain bs where bs: "getBytes (combined c s) = Inr bs" "h = hexlify (K bs)"
    by (auto simp: hashPair_bytes)
  with Cons.IH [OF h(2)] show ?case by simp
qed

lemma length_hashedBytes:
  "verifyProofLoop K c path = Inr r \<Longrightarrow> length (hashedBytes K c path) = length path"
proof (induction path arbitrary: c)
  case Nil
  then show ?case by simp
next
  case (Cons s rest)
  from Cons.prems obtain h where h: "hashPair K c s = Inr h" "verifyProofLoop K h rest = Inr r"
    by (auto split: sum.splits)
  from hashedBytes_Cons [OF h(1), of rest] Cons.IH [OF h(2)] show ?case by auto
qed

lemma last_hashedBytes:
  "verifyProofLoop K c path = Inr r \<Longrightarrow> path \<noteq> [] \<Longrightarrow>
     r = hexlify (K (last (hashedBytes K c path)))"
proof (induction path arbitrary: c)
  case Nil
  then show ?case by simp
next
  case (Cons s rest)
  from Cons.prems(1) obtain h where h: "hashPair K c s = Inr h" "verifyProofLoop K h rest = Inr r"
    by (auto split: sum.splits)
  from hashedBytes_Cons [OF h(1), of rest] obtain bs
    where bs: "h = hexlify (K bs)" "hashedBytes K c (s # rest) = bs # hashedBytes K h rest"
    by blast
  show ?case
  proof (cases "rest = []")
    case True
    with h(2) bs show ?thesis by simp
  next
    case False
    then have "hashedBytes K h rest \<noteq> []"
      using length_hashedBytes [OF h(2)] by auto
    with Cons.IH [OF h(2) False] bs(2) show ?thesis by simp
  qed
qed

lemma verifyProofLoop_tamper_inj:
  assumes "verifyProofLoop K c path = Inr r" and "verifyProofLoop K c' path = Inr r'"
    and "isContentHash c" "isContentHash c'" "normalizeHash c \<noteq> normalizeHash c'"
    and "\<forall>s \<in> set path. isContentHash s"
    and "inj_on K (set (hashedBytes K c path) \<union> set (hashedBytes K c' path))"
  shows "normalizeHash r \<noteq> normalizeHash r'"
  using assms
proof (induction path arbitrary: c c')
  case Nil
  then show ?case by simp
next
  case (Cons s rest)
  from Cons.prems(1) obtain h where h: "hashPair K c s = Inr h" "verifyProofLoop K h rest = Inr r"
    by (auto split: sum.splits)
  from Cons.prems(2) obtain h' where h': "hashPair K c' s = Inr h'" "verifyProofLoop K h' rest = Inr r'"
    by (auto split: sum.splits)
  from hashedBytes_Cons [OF h(1), of rest] obtain bs
    where bs: "getBytes (combined c s) = Inr bs" "h = hexlify (K bs)"
      "hashedBytes K c (s # rest) = bs # hashedBytes K h rest" by blast
  from hashedBytes_Cons [OF h'(1), of rest] obtain bs'
    where bs': "getBytes (combined c' s) = Inr bs'" "h' = hexlify (K bs')"
      "hashedBytes K c' (s # rest) = bs' # hashedBytes K h' rest" by blast
  have inj: "inj_on K (insert bs (insert bs' (set (hashedBytes K h rest) \<union> set (hashedBytes K h' rest))))"
    using Cons.prems(7) unfolding bs(3) bs'(3) by (simp add: insert_commute Un_commute Un_left_commute)
  have ws: "isContentHash s" using Cons.prems(6) by simp
  have "h \<noteq> h'"
  proof
    assume "h = h'"
    with bs(2) bs'(2) have "K bs = K bs'" by (auto dest: hexlify_inj)
    with inj have "bs = bs'" by (auto dest: inj_onD)
    with bs(1) bs'(1) Cons.prems(3,4) ws have "normalizeHash c = normalizeHash c'"
      by (auto intro: combined_inj_left)
    with Cons.prems(5) show False by simp
  qed
  then have "normalizeHash h \<noteq> normalizeHash h'"
    using hashPair_normal [OF h(1)] hashPair_normal [OF h'(1)] by simp
  moreover have "inj_on K (set (hashedBytes K h rest) \<union> set (hashedBytes K h' rest))"
    using inj by (rule inj_on_subset) auto
  ultimately show ?case
    using Cons.IH [OF h(2) h'(2)] hashPair_isContentHash [OF h(1)] hashPair_isContentHash [OF h'(1)]
      Cons.prems(6) by simp
qed

lemma verifyProof_raises:
  assumes "proof_path q = s # rest" and "\<not> isBytesLike (combined (leaf q) s)"
  shows "verifyProof K q = Inl (InvalidBytesLike (combined (leaf q) s))"
proof -
  have "combined (normalizeHash (leaf q)) s = combined (leaf q) s"
    by (simp add: combined_eq normalizeHash_idem)
  then have "hashPair K (normalizeHash (leaf q)) s = Inl (InvalidBytesLike (combined (leaf q) s))"
    using assms(2) by (simp add: hashPair_combined keccak256_def getBytes_def)
  then show ?thesis
    using assms(1) by (simp add: verifyProof_def)
qed



text \<open>
  Claim C3. \<^verbatim>\<open>computeRoot\<close> gives the same result on two lists that are permutations of
  each other once letter case is set aside: this covers a permutation of the input, a
  change of letter case in any of its strings, and both at once. (On the empty list both
  calls raise the same error.)
\<close>

theorem C3_root_permutation_case:
  assumes "mset (map toLowerCase P) = mset (map toLowerCase S)"
  shows "computeRoot K newId' now' P = computeRoot K newId now S"
proof -
  have "length P = length S"
    using assms by (metis length_map size_mset)
  then show ?thesis
    using buildTree_cong [OF assms, of K]
    by (auto simp: computeRoot_def buildMerkleBatch_def Let_def split: sum.splits)
qed


theorem C3_root_permutation_case_witness:
  "mset (map toLowerCase [''0xCD'', ''0xab'', ''0xEF'']) = mset (map toLowerCase [''0xAB'', ''0xcd'', ''0xef'']) \<and>
   computeRoot (\<lambda>_. 0) ''batch_2'' 1 [''0xCD'', ''0xab'', ''0xEF''] =
   computeRoot (\<lambda>_. 0) ''batch_1'' 0 [''0xAB'', ''0xcd'', ''0xef'']"
proof -
  have perm: "mset (map toLowerCase [''0xCD'', ''0xab'', ''0xEF'']) =
              mset (map toLowerCase [''0xAB'', ''0xcd'', ''0xef''])"
  proof -
    have "map toLowerCase [''0xCD'', ''0xab'', ''0xEF''] = [''0xcd'', ''0xab'', ''0xef'']"
      by code_simp
    moreover have "map toLowerCase [''0xAB'', ''0xcd'', ''0xef''] = [''0xab'', ''0xcd'', ''0xef'']"
      by code_simp
    ultimately show ?thesis by simp
  qed
  show ?thesis
    using perm C3_root_permutation_case [OF perm, of "\<lambda>_. 0" "''batch_2''" 1 "''batch_1''" 0]
    by simp
qed

text \<open>
  Claim C4, as the code has it. The leaves are the normalised input sorted, with every
  repetition kept: two inputs with the same multiset of normalised hashes give the same
  root, leaves and tree. The same set is not enough.
\<close>

theorem C4_root_multiset:
  assumes "mset (map normalizeHash T) = mset (map normalizeHash S)"
    and "buildMerkleBatch K newId now S = Inr b"
  shows "\<exists>b'. buildMerkleBatch K newId' now' T = Inr b' \<and>
              root b' = root b \<and> leaves b' = leaves b \<and> tree b' = tree b"
proof -
  have len: "length T = length S"
    using assms(1) by (metis length_map size_mset)
  have "sort (map normalizeHash T) = sort (map normalizeHash S)"
    using assms(1) by (rule sort_cong_mset)
  then have "buildTree K T = buildTree K S"
    using len by (simp add: buildTree_def)
  with assms(2) len show ?thesis
    by (auto simp: buildMerkleBatch_def Let_def split: sum.splits if_splits)
qed

theorem C4_root_multiset_witness:
  "mset (map normalizeHash [''0xCD'', ''ab'']) = mset (map normalizeHash [''0xab'', ''0xcd'']) \<and>
   (\<exists>b b'. buildMerkleBatch (\<lambda>_. 0) ''batch_1'' 0 [''0xab'', ''0xcd''] = Inr b \<and>
           buildMerkleBatch (\<lambda>_. 0) ''batch_2'' 1 [''0xCD'', ''ab''] = Inr b' \<and>
           root b' = root b \<and> leaves b' = leaves b \<and> tree b' = tree b)"
proof -
  have n1: "map normalizeHash [''0xCD'', ''ab''] = [''0xcd'', ''0xab'']"
    by code_simp
  have n2: "map normalizeHash [''0xab'', ''0xcd''] = [''0xab'', ''0xcd'']"
    by code_simp
  have perm: "mset (map normalizeHash [''0xCD'', ''ab'']) = mset (map normalizeHash [''0xab'', ''0xcd''])"
    unfolding n1 n2 by simp
  have "\<forall>s \<in> set [''0xab'', ''0xcd'']. isBytesLike (normalizeHash s)"
    by (simp add: isBytesLike_def normalizeHash_def replace0x_def toLowerCase_def
        toLowerChar_def isHexDigit_def)
  then obtain b where b: "buildMerkleBatch (\<lambda>_. 0) ''batch_1'' 0 [''0xab'', ''0xcd''] = Inr b"
    using buildMerkleBatch_ok [of "[''0xab'', ''0xcd'']" "\<lambda>_. 0" "''batch_1''" 0] by auto
  from C4_root_multiset [OF perm b, of "''batch_2''" 1] perm b show ?thesis
    by blast
qed

text \<open>
  Claim C4, as stated, fails: \<^verbatim>\<open>["0xab"]\<close> and \<^verbatim>\<open>["0xab", "0xab"]\<close> have the same set of
  normalised hashes; the root of the first is the leaf itself, the root of the second is
  the digest of the leaf paired with itself.
\<close>

theorem C4_counterexample:
  "\<forall>K. set (map normalizeHash [''0xab'']) = set (map normalizeHash [''0xab'', ''0xab'']) \<and>
        (\<exists>b1 b2. buildMerkleBatch K ''batch_1'' 0 [''0xab''] = Inr b1 \<and>
                 buildMerkleBatch K ''batch_2'' 0 [''0xab'', ''0xab''] = Inr b2 \<and>
                 root b1 = ''0xab'' \<and> root b2 = hexlify (K [171, 171]) \<and> root b1 \<noteq> root b2)"
proof
  fix K :: sponge
  have n: "normalizeHash ''0xab'' = ''0xab''" by code_simp
  have h: "hashPair K ''0xab'' ''0xab'' = Inr (hexlify (K [171, 171]))"
    by (simp add: hashPair_eq n keccak256_def getBytes_def isBytesLike_def isHexDigit_def hexValue_def)
  have t1: "buildTree K [''0xab''] = Inr [[''0xab'']]"
    by (simp add: buildTree_def n buildTreeLoop_unfold)
  have t2: "buildTree K [''0xab'', ''0xab''] = Inr [[''0xab'', ''0xab''], [hexlify (K [171, 171])]]"
    by (simp add: buildTree_def n buildTreeLoop_unfold h)
  have ne: "''0xab'' \<noteq> hexlify (K [171, 171])"
    by (auto simp: hexlify_def dest: arg_cong [where f = length])
  show "set (map normalizeHash [''0xab'']) = set (map normalizeHash [''0xab'', ''0xab'']) \<and>
        (\<exists>b1 b2. buildMerkleBatch K ''batch_1'' 0 [''0xab''] = Inr b1 \<and>
                 buildMerkleBatch K ''batch_2'' 0 [''0xab'', ''0xab''] = Inr b2 \<and>
                 root b1 = ''0xab'' \<and> root b2 = hexlify (K [171, 171]) \<and> root b1 \<noteq> root b2)"
    using ne by (simp add: buildMerkleBatch_def t1 t2 hexlify_nonempty Let_def)
qed





text \<open>
  Claim C5, as the code has it. Take a proof on which \<^verbatim>\<open>verifyProof\<close> returns true and
  whose leaf and siblings are content hashes.
  \<^item> With the root replaced by a string of another normalised form, \<^verbatim>\<open>verifyProof\<close>
    returns false.
  \<^item> With the leaf, or one sibling, replaced by a content hash of another normalised form,
    \<^verbatim>\<open>verifyProof\<close> returns a boolean, and it returns false whenever the digest is
    injective on the byte strings that the original run and the tampered run hash
    (\<open>hashedBytes\<close>: at most one for each sibling and run): a tampered proof is accepted
    only through a collision between two of these inputs.
  \<^item> A replacement that keeps every normalised form (another letter case, a dropped
    \<^verbatim>\<open>0x\<close>) keeps the result true.
  \<^item> On any proof with a sibling, when the leaf joined with the first sibling
    (\<open>combined\<close>) is not \<^verbatim>\<open>0x\<close> and whole hex bytes, \<^verbatim>\<open>verifyProof\<close> raises the error of
    \<^verbatim>\<open>getBytes\<close>.
  \<^item> The run on the proof hashes one byte string for each sibling, and the root is the
    digest of the last one.
\<close>

theorem C5_tampered_proof:
  assumes ok: "verifyProof K p = Inr True"
    and wl: "isContentHash (leaf p)" and wp: "\<forall>s \<in> set (proof_path p). isContentHash s"
  shows "(normalizeHash r' \<noteq> normalizeHash (proof_root p) \<longrightarrow>
            verifyProof K (p\<lparr>proof_root := r'\<rparr>) = Inr False) \<and>
         (isContentHash l' \<and> normalizeHash l' \<noteq> normalizeHash (leaf p) \<longrightarrow>
            (\<exists>v. verifyProof K (p\<lparr>leaf := l'\<rparr>) = Inr v) \<and>
            (inj_on K (set (hashedBytes K (leaf p) (proof_path p)) \<union>
                       set (hashedBytes K l' (proof_path p))) \<longrightarrow>
               verifyProof K (p\<lparr>leaf := l'\<rparr>) = Inr False)) \<and>
         (i < length (proof_path p) \<and> isContentHash s' \<and>
          normalizeHash s' \<noteq> normalizeHash (proof_path p ! i) \<longrightarrow>
            (\<exists>v. verifyProof K (p\<lparr>proof_path := (proof_path p)[i := s']\<rparr>) = Inr v) \<and>
            (inj_on K (set (hashedBytes K (leaf p) (proof_path p)) \<union>
                       set (hashedBytes K (leaf p) ((proof_path p)[i := s']))) \<longrightarrow>
               verifyProof K (p\<lparr>proof_path := (proof_path p)[i := s']\<rparr>) = Inr False)) \<and>
         (normalizeHash l' = normalizeHash (leaf p) \<and>
          map normalizeHash path' = map normalizeHash (proof_path p) \<and>
          normalizeHash r' = normalizeHash (proof_root p) \<longrightarrow>
            verifyProof K \<lparr>leaf = l', proof_path = path', proof_root = r', leaf_index = j\<rparr> = Inr True) \<and>
         (proof_path q = s # rest \<and> \<not> isBytesLike (combined (leaf q) s) \<longrightarrow>
            verifyProof K q = Inl (InvalidBytesLike (combined (leaf q) s))) \<and>
         length (hashedBytes K (leaf p) (proof_path p)) = length (proof_path p) \<and>
         (proof_path p \<noteq> [] \<longrightarrow>
            normalizeHash (proof_root p) =
              hexlify (K (last (hashedBytes K (leaf p) (proof_path p)))))"
proof -
  from ok obtain r where r: "verifyProofLoop K (normalizeHash (leaf p)) (proof_path p) = Inr r"
    and rr: "r = normalizeHash (proof_root p)"
    by (auto simp: verifyProof_iff)
  have nr: "normalizeHash r = r" using rr by (simp add: normalizeHash_idem)
  have wl': "isContentHash (normalizeHash (leaf p))"
    using wl by (simp add: isContentHash_def normalizeHash_idem)
  have root: "verifyProof K (p\<lparr>proof_root := r'\<rparr>) = Inr False"
    if "normalizeHash r' \<noteq> normalizeHash (proof_root p)"
    using that r rr by (simp add: verifyProof_iff)
  have leaf: "(\<exists>v. verifyProof K (p\<lparr>leaf := l'\<rparr>) = Inr v) \<and>
       (inj_on K (set (hashedBytes K (leaf p) (proof_path p)) \<union>
                  set (hashedBytes K l' (proof_path p))) \<longrightarrow>
          verifyProof K (p\<lparr>leaf := l'\<rparr>) = Inr False)"
    if l': "isContentHash l'" "normalizeHash l' \<noteq> normalizeHash (leaf p)"
  proof -
    have w: "isContentHash (normalizeHash l')"
      using l'(1) by (simp add: isContentHash_def normalizeHash_idem)
    from verifyProofLoop_ok [OF w wp] obtain q'
      where q': "verifyProofLoop K (normalizeHash l') (proof_path p) = Inr q'" by blast
    have nq: "normalizeHash q' = q'"
      using verifyProofLoop_normal [OF q'] by (simp add: normalizeHash_idem)
    have "q' \<noteq> r"
      if "inj_on K (set (hashedBytes K (leaf p) (proof_path p)) \<union>
                    set (hashedBytes K l' (proof_path p)))"
      using verifyProofLoop_tamper_inj [OF r q' wl' w _ wp] that l'(2) nr nq
      by (auto simp: normalizeHash_idem hashedBytes_normalizeHash)
    with q' rr show ?thesis by (auto simp: verifyProof_iff)
  qed
  have sib: "(\<exists>v. verifyProof K (p\<lparr>proof_path := (proof_path p)[i := s']\<rparr>) = Inr v) \<and>
       (inj_on K (set (hashedBytes K (leaf p) (proof_path p)) \<union>
                  set (hashedBytes K (leaf p) ((proof_path p)[i := s']))) \<longrightarrow>
          verifyProof K (p\<lparr>proof_path := (proof_path p)[i := s']\<rparr>) = Inr False)"
    if s': "i < length (proof_path p)" "isContentHash s'"
       "normalizeHash s' \<noteq> normalizeHash (proof_path p ! i)"
  proof -
    let ?pre = "take i (proof_path p)" and ?post = "drop (Suc i) (proof_path p)"
    let ?s = "proof_path p ! i"
    let ?c = "normalizeHash (leaf p)"
    have split: "proof_path p = ?pre @ ?s # ?post"
      using s'(1) by (rule id_take_nth_drop)
    have upd: "(proof_path p)[i := s'] = ?pre @ s' # ?post"
      using s'(1) by (rule upd_conv_take_nth_drop)
    have ws: "isContentHash ?s" using wp s'(1) by simp
    have wpost: "\<forall>s \<in> set ?post. isContentHash s"
      using wp by (auto dest: in_set_dropD)
    from r obtain m h where m: "verifyProofLoop K ?c ?pre = Inr m"
      and h: "hashPair K m ?s = Inr h" and rest: "verifyProofLoop K h ?post = Inr r"
      by (subst (asm) split) (auto simp: verifyProofLoop_append split: sum.splits)
    have wm: "isContentHash m"
      using verifyProofLoop_isContentHash [OF m wl'] .
    obtain h' where h': "hashPair K m s' = Inr h'"
      using hashPair_ok [of m s' K] wm s'(2) by (auto simp: isContentHash_def)
    have wh: "isContentHash h" "isContentHash h'"
      using hashPair_isContentHash h h' by blast+
    from verifyProofLoop_ok [OF wh(2) wpost] obtain q'
      where q': "verifyProofLoop K h' ?post = Inr q'" by blast
    have loop': "verifyProofLoop K ?c ((proof_path p)[i := s']) = Inr q'"
      unfolding upd using m h' q' by (simp add: verifyProofLoop_append)
    from hashedBytes_Cons [OF h, of ?post] obtain bs
      where bs: "getBytes (combined m ?s) = Inr bs" "h = hexlify (K bs)"
        "hashedBytes K m (?s # ?post) = bs # hashedBytes K h ?post" by blast
    from hashedBytes_Cons [OF h', of ?post] obtain bs'
      where bs': "getBytes (combined m s') = Inr bs'" "h' = hexlify (K bs')"
        "hashedBytes K m (s' # ?post) = bs' # hashedBytes K h' ?post" by blast
    have in1: "hashedBytes K (leaf p) (proof_path p) =
        hashedBytes K ?c ?pre @ bs # hashedBytes K h ?post"
      using hashedBytes_append [OF m, of "?s # ?post"] split bs(3)
      by (simp add: hashedBytes_normalizeHash)
    have in2: "hashedBytes K (leaf p) ((proof_path p)[i := s']) =
        hashedBytes K ?c ?pre @ bs' # hashedBytes K h' ?post"
      using hashedBytes_append [OF m, of "s' # ?post"] upd bs'(3)
      by (simp add: hashedBytes_normalizeHash)
    have "q' \<noteq> r"
      if inj: "inj_on K (set (hashedBytes K (leaf p) (proof_path p)) \<union>
                    set (hashedBytes K (leaf p) ((proof_path p)[i := s'])))"
    proof -
      have "h \<noteq> h'"
      proof
        assume "h = h'"
        with bs(2) bs'(2) have "K bs = K bs'" by (auto dest: hexlify_inj)
        moreover have "bs \<in> set (hashedBytes K (leaf p) (proof_path p))"
          "bs' \<in> set (hashedBytes K (leaf p) ((proof_path p)[i := s']))"
          unfolding in1 in2 by simp_all
        ultimately have "bs = bs'" using inj by (auto dest: inj_onD)
        with bs(1) bs'(1) wm ws s'(2) have "normalizeHash ?s = normalizeHash s'"
          by (auto intro: combined_inj_right)
        with s'(3) show False by simp
      qed
      then have n: "normalizeHash h \<noteq> normalizeHash h'"
        using hashPair_normal [OF h] hashPair_normal [OF h'] by simp
      have "inj_on K (set (hashedBytes K h ?post) \<union> set (hashedBytes K h' ?post))"
        using inj unfolding in1 in2 by (rule inj_on_subset) auto
      from verifyProofLoop_tamper_inj [OF rest q' wh n wpost this]
      have "normalizeHash r \<noteq> normalizeHash q'" .
      then show ?thesis by auto
    qed
    with loop' rr show ?thesis by (auto simp: verifyProof_iff)
  qed
  have same: "verifyProof K \<lparr>leaf = l', proof_path = path', proof_root = r', leaf_index = j\<rparr> = Inr True"
    if eq: "normalizeHash l' = normalizeHash (leaf p)"
       "map normalizeHash path' = map normalizeHash (proof_path p)"
       "normalizeHash r' = normalizeHash (proof_root p)"
  proof (cases "proof_path p = []")
    case True
    with eq(2) have "path' = []" by simp
    with True r rr eq show ?thesis by (simp add: verifyProof_iff)
  next
    case False
    have "verifyProofLoop K (normalizeHash (leaf p)) (proof_path p) =
          verifyProofLoop K (normalizeHash l') path'"
      using eq(1,2) False by (intro verifyProofLoop_cong) simp_all
    with r rr eq(3) show ?thesis by (simp add: verifyProof_iff)
  qed
  have len: "length (hashedBytes K (leaf p) (proof_path p)) = length (proof_path p)"
    using length_hashedBytes [OF r] by (simp add: hashedBytes_normalizeHash)
  have top: "proof_path p \<noteq> [] \<longrightarrow>
      normalizeHash (proof_root p) = hexlify (K (last (hashedBytes K (leaf p) (proof_path p))))"
    using last_hashedBytes [OF r] rr by (simp add: hashedBytes_normalizeHash)
  from root leaf sib same verifyProof_raises [of q s rest K] len top show ?thesis by blast
qed

text \<open>
  An instance of C5 with one sibling and a digest that adds up the bytes: the root, the
  leaf and the sibling are tampered in turn, the digest is injective on the two inputs
  hashed each time, and the result is false; a change of letter case and prefix keeps it
  true; and the leaf \<^verbatim>\<open>0xabc\<close> with the sibling \<^verbatim>\<open>0xdd\<close> raises.
\<close>

theorem C5_tampered_proof_witness:
  "verifyProof (\<lambda>bs. word_of_nat (sum_list (map unat bs)))
     \<lparr>leaf = ''0x'' @ replicate 64 CHR ''a'', proof_path = [''0x'' @ replicate 64 CHR ''b''],
      proof_root = ''0x'' @ replicate 60 CHR ''0'' @ ''2ca0'', leaf_index = 0\<rparr> = Inr True \<and>
   isContentHash (''0x'' @ replicate 64 CHR ''a'') \<and>
   isContentHash (''0x'' @ replicate 64 CHR ''b'') \<and>
   verifyProof (\<lambda>bs. word_of_nat (sum_list (map unat bs)))
     \<lparr>leaf = ''0x'' @ replicate 64 CHR ''a'', proof_path = [''0x'' @ replicate 64 CHR ''b''],
      proof_root = ''0x'' @ replicate 60 CHR ''0'' @ ''2ca1'', leaf_index = 0\<rparr> = Inr False \<and>
   hashedBytes (\<lambda>bs. word_of_nat (sum_list (map unat bs)))
     (''0x'' @ replicate 64 CHR ''a'') [''0x'' @ replicate 64 CHR ''b''] =
     [replicate 32 170 @ replicate 32 187] \<and>
   hashedBytes (\<lambda>bs. word_of_nat (sum_list (map unat bs)))
     (''0xab'' @ replicate 62 CHR ''a'') [''0x'' @ replicate 64 CHR ''b''] =
     [171 # replicate 31 170 @ replicate 32 187] \<and>
   verifyProof (\<lambda>bs. word_of_nat (sum_list (map unat bs)))
     \<lparr>leaf = ''0xab'' @ replicate 62 CHR ''a'', proof_path = [''0x'' @ replicate 64 CHR ''b''],
      proof_root = ''0x'' @ replicate 60 CHR ''0'' @ ''2ca0'', leaf_index = 0\<rparr> = Inr False \<and>
   hashedBytes (\<lambda>bs. word_of_nat (sum_list (map unat bs)))
     (''0x'' @ replicate 64 CHR ''a'') [''0xbc'' @ replicate 62 CHR ''b''] =
     [replicate 32 170 @ 188 # replicate 31 187] \<and>
   verifyProof (\<lambda>bs. word_of_nat (sum_list (map unat bs)))
     \<lparr>leaf = ''0x'' @ replicate 64 CHR ''a'', proof_path = [''0xbc'' @ replicate 62 CHR ''b''],
      proof_root = ''0x'' @ replicate 60 CHR ''0'' @ ''2ca0'', leaf_index = 0\<rparr> = Inr False \<and>
   verifyProof (\<lambda>bs. word_of_nat (sum_list (map unat bs)))
     \<lparr>leaf = ''0XA'' @ replicate 63 CHR ''a'', proof_path = [''0x'' @ replicate 64 CHR ''B''],
      proof_root = replicate 60 CHR ''0'' @ ''2CA0'', leaf_index = 7\<rparr> = Inr True \<and>
   verifyProof (\<lambda>bs. word_of_nat (sum_list (map unat bs)))
     \<lparr>leaf = ''0xabc'', proof_path = [''0xdd'', ''0xd''],
      proof_root = ''0x'' @ replicate 60 CHR ''0'' @ ''2ca0'', leaf_index = 0\<rparr> =
     Inl (InvalidBytesLike ''0xabcdd'')"
proof -
  let ?K = "\<lambda>bs :: bytes. word_of_nat (sum_list (map unat bs)) :: 256 word"
  let ?L = "''0x'' @ replicate 64 CHR ''a''" and ?S = "''0x'' @ replicate 64 CHR ''b''"
  let ?R = "''0x'' @ replicate 60 CHR ''0'' @ ''2ca0''"
  let ?R' = "''0x'' @ replicate 60 CHR ''0'' @ ''2ca1''"
  let ?L' = "''0xab'' @ replicate 62 CHR ''a''" and ?S' = "''0xbc'' @ replicate 62 CHR ''b''"
  let ?p = "\<lparr>leaf = ?L, proof_path = [?S], proof_root = ?R, leaf_index = 0\<rparr>"
  let ?q = "\<lparr>leaf = ''0xabc'', proof_path = [''0xdd'', ''0xd''], proof_root = ?R, leaf_index = 0\<rparr>"
  let ?b1 = "replicate 32 170 @ replicate 32 187 :: bytes"
  let ?b2 = "171 # replicate 31 170 @ replicate 32 187 :: bytes"
  let ?b3 = "replicate 32 170 @ 188 # replicate 31 187 :: bytes"
  have ok: "verifyProof ?K ?p = Inr True" by code_simp
  have wl: "isContentHash ?L" by code_simp
  have ws: "isContentHash ?S" by code_simp
  have wl': "isContentHash ?L'" by code_simp
  have ws': "isContentHash ?S'" by code_simp
  have r': "normalizeHash ?R' \<noteq> normalizeHash ?R" by code_simp
  have l': "normalizeHash ?L' \<noteq> normalizeHash ?L" by code_simp
  have s': "normalizeHash ?S' \<noteq> normalizeHash ?S" by code_simp
  have g1: "getBytes (combined ?L ?S) = Inr ?b1" by code_simp
  have g2: "getBytes (combined ?L' ?S) = Inr ?b2" by code_simp
  have g3: "getBytes (combined ?L ?S') = Inr ?b3" by code_simp
  have h1: "hashedBytes ?K ?L [?S] = [?b1]"
    by (simp only: hashedBytes.simps g1 sum.case)
  have h2: "hashedBytes ?K ?L' [?S] = [?b2]"
    by (simp only: hashedBytes.simps g2 sum.case)
  have h3: "hashedBytes ?K ?L [?S'] = [?b3]"
    by (simp only: hashedBytes.simps g3 sum.case)
  have k1: "?K ?b1 = 11424" by (simp add: sum_list_replicate)
  have k2: "?K ?b2 = 11425" by (simp add: sum_list_replicate)
  have k3: "?K ?b3 = 11425" by (simp add: sum_list_replicate)
  have i2: "inj_on ?K (set [?b1] \<union> set [?b2])"
    by (rule inj_onI) (use k1 k2 in auto)
  have i3: "inj_on ?K (set [?b1] \<union> set [?b3])"
    by (rule inj_onI) (use k1 k3 in auto)
  have e1: "normalizeHash (''0XA'' @ replicate 63 CHR ''a'') = normalizeHash ?L" by code_simp
  have e2: "map normalizeHash [''0x'' @ replicate 64 CHR ''B''] = map normalizeHash [?S]" by code_simp
  have e3: "normalizeHash (replicate 60 CHR ''0'' @ ''2CA0'') = normalizeHash ?R" by code_simp
  have nb: "\<not> isBytesLike (combined ''0xabc'' ''0xdd'')" by code_simp
  have cb: "combined ''0xabc'' ''0xdd'' = ''0xabcdd''" by code_simp
  have a: "isContentHash (leaf ?p)"
    using wl by (simp only: MerkleProof.select_convs simp_thms)
  have b: "\<forall>s \<in> set (proof_path ?p). isContentHash s"
    using ws by (simp only: MerkleProof.select_convs list.set ball_simps simp_thms)
  note t = C5_tampered_proof [OF ok a b, where r' = ?R' and l' = ?L' and i = 0 and s' = ?S'
      and q = ?q and s = "''0xdd''" and rest = "[''0xd'']"]
  note u = C5_tampered_proof [OF ok a b, where r' = "replicate 60 CHR ''0'' @ ''2CA0''"
      and l' = "''0XA'' @ replicate 63 CHR ''a''" and path' = "[''0x'' @ replicate 64 CHR ''B'']"
      and j = 7]
  have 1: "verifyProof ?K \<lparr>leaf = ?L, proof_path = [?S], proof_root = ?R', leaf_index = 0\<rparr> = Inr False"
    using t r' by (simp only: MerkleProof.select_convs MerkleProof.update_convs simp_thms)
  have 2: "verifyProof ?K \<lparr>leaf = ?L', proof_path = [?S], proof_root = ?R, leaf_index = 0\<rparr> = Inr False"
    using t wl' l' i2
    by (simp only: MerkleProof.select_convs MerkleProof.update_convs h1 h2 simp_thms)
  have 3: "verifyProof ?K \<lparr>leaf = ?L, proof_path = [?S'], proof_root = ?R, leaf_index = 0\<rparr> = Inr False"
    using t ws' s' i3
    by (simp only: MerkleProof.select_convs MerkleProof.update_convs h1 h3 simp_thms
        list_update_code nth_Cons_0 list.size length_Cons zero_less_Suc)
  have 4: "verifyProof ?K \<lparr>leaf = ''0XA'' @ replicate 63 CHR ''a'',
      proof_path = [''0x'' @ replicate 64 CHR ''B''],
      proof_root = replicate 60 CHR ''0'' @ ''2CA0'', leaf_index = 7\<rparr> = Inr True"
    using u e1 e2 e3 by (simp only: MerkleProof.select_convs simp_thms)
  have 5: "verifyProof ?K ?q = Inl (InvalidBytesLike ''0xabcdd'')"
    using t nb by (simp only: MerkleProof.select_convs cb simp_thms)
  show ?thesis
    by (intro conjI ok wl ws 1 h1 h2 2 h3 3 4 5)
qed

text \<open>
  Claim C5, as stated, fails twice on a proof of one sibling: the leaf with its first
  digit in upper case still verifies, and the leaf with its first digit replaced by
  \<^verbatim>\<open>g\<close> makes \<^verbatim>\<open>keccak256\<close> raise.
\<close>

theorem C5_counterexample:
  "\<forall>K. verifyProof K \<lparr>leaf = ''0x'' @ replicate 64 CHR ''a'',
                       proof_path = [''0x'' @ replicate 64 CHR ''b''],
                       proof_root = hexlify (K (replicate 32 170 @ replicate 32 187)),
                       leaf_index = 0\<rparr> = Inr True \<and>
       verifyProof K \<lparr>leaf = ''0xA'' @ replicate 63 CHR ''a'',
                       proof_path = [''0x'' @ replicate 64 CHR ''b''],
                       proof_root = hexlify (K (replicate 32 170 @ replicate 32 187)),
                       leaf_index = 0\<rparr> = Inr True \<and>
       verifyProof K \<lparr>leaf = ''0xg'' @ replicate 63 CHR ''a'',
                       proof_path = [''0x'' @ replicate 64 CHR ''b''],
                       proof_root = hexlify (K (replicate 32 170 @ replicate 32 187)),
                       leaf_index = 0\<rparr> =
         Inl (InvalidBytesLike (''0x'' @ replicate 64 CHR ''b'' @ ''g'' @ replicate 63 CHR ''a''))"
proof
  fix K :: sponge
  let ?S = "''0x'' @ replicate 64 CHR ''b''"
  let ?bs = "replicate 32 170 @ replicate 32 187 :: bytes"
  have g1: "getBytes (min (normalizeHash (normalizeHash (''0x'' @ replicate 64 CHR ''a''))) (normalizeHash ?S) @
                drop 2 (max (normalizeHash (normalizeHash (''0x'' @ replicate 64 CHR ''a''))) (normalizeHash ?S))) =
            Inr ?bs"
    by code_simp
  have g2: "getBytes (min (normalizeHash (normalizeHash (''0xA'' @ replicate 63 CHR ''a''))) (normalizeHash ?S) @
                drop 2 (max (normalizeHash (normalizeHash (''0xA'' @ replicate 63 CHR ''a''))) (normalizeHash ?S))) =
            Inr ?bs"
    by code_simp
  have g3: "getBytes (min (normalizeHash (normalizeHash (''0xg'' @ replicate 63 CHR ''a''))) (normalizeHash ?S) @
                drop 2 (max (normalizeHash (normalizeHash (''0xg'' @ replicate 63 CHR ''a''))) (normalizeHash ?S))) =
            Inl (InvalidBytesLike (''0x'' @ replicate 64 CHR ''b'' @ ''g'' @ replicate 63 CHR ''a''))"
    by code_simp
  have fin: "toLowerCase (hexlify (K ?bs)) = toLowerCase (normalizeHash (hexlify (K ?bs)))"
    by (simp only: normalizeHash_hexlify)
  have 1: "verifyProof K \<lparr>leaf = ''0x'' @ replicate 64 CHR ''a'', proof_path = [?S],
                       proof_root = hexlify (K ?bs), leaf_index = 0\<rparr> = Inr True"
    using fin
    by (simp only: verifyProof_def MerkleProof.select_convs verifyProofLoop.simps hashPair_eq
        keccak256_def g1 sum.case simp_thms)
  have 2: "verifyProof K \<lparr>leaf = ''0xA'' @ replicate 63 CHR ''a'', proof_path = [?S],
                       proof_root = hexlify (K ?bs), leaf_index = 0\<rparr> = Inr True"
    using fin
    by (simp only: verifyProof_def MerkleProof.select_convs verifyProofLoop.simps hashPair_eq
        keccak256_def g2 sum.case simp_thms)
  have 3: "verifyProof K \<lparr>leaf = ''0xg'' @ replicate 63 CHR ''a'', proof_path = [?S],
                       proof_root = hexlify (K ?bs), leaf_index = 0\<rparr> =
         Inl (InvalidBytesLike (''0x'' @ replicate 64 CHR ''b'' @ ''g'' @ replicate 63 CHR ''a''))"
    by (simp only: verifyProof_def MerkleProof.select_convs verifyProofLoop.simps hashPair_eq
        keccak256_def g3 sum.case simp_thms)
  show "verifyProof K \<lparr>leaf = ''0x'' @ replicate 64 CHR ''a'',
                       proof_path = [''0x'' @ replicate 64 CHR ''b''],
                       proof_root = hexlify (K (replicate 32 170 @ replicate 32 187)),
                       leaf_index = 0\<rparr> = Inr True \<and>
       verifyProof K \<lparr>leaf = ''0xA'' @ replicate 63 CHR ''a'',
                       proof_path = [''0x'' @ replicate 64 CHR ''b''],
                       proof_root = hexlify (K (replicate 32 170 @ replicate 32 187)),
                       leaf_index = 0\<rparr> = Inr True \<and>
       verifyProof K \<lparr>leaf = ''0xg'' @ replicate 63 CHR ''a'',
                       proof_path = [''0x'' @ replicate 64 CHR ''b''],
                       proof_root = hexlify (K (replicate 32 170 @ replicate 32 187)),
                       leaf_index = 0\<rparr> =
         Inl (InvalidBytesLike (''0x'' @ replicate 64 CHR ''b'' @ ''g'' @ replicate 63 CHR ''a''))"
    by (intro conjI 1 2 3)
qed

section \<open>The canonicalizer\<close>

lemma canonicalizeValue_typeof:
  "typeof v = ''object'' \<Longrightarrow> v \<noteq> JNull \<Longrightarrow>
     (\<exists>items. canonicalizeValue v = JArray items) \<or> (\<exists>obj. canonicalizeValue v = JObject obj)"
  by (cases v) (simp_all add: typeof_def)

lemma canonicalize_text:
  assumes "typeof v = ''object''" and "v \<noteq> JNull"
  shows "\<exists>out. JSON_stringify (canonicalizeValue v) = Some out \<and> canonicalize v = Inr out"
proof -
  from canonicalizeValue_typeof [OF assms] obtain out
    where t: "JSON_stringify (canonicalizeValue v) = Some out"
    by auto
  moreover have "v \<noteq> JUndefined" using assms(1) by (auto simp: typeof_def)
  ultimately show ?thesis
    using assms by (simp add: canonicalize_def)
qed


text \<open>
  Claim C6, as the code has it. \<^verbatim>\<open>canonicalize\<close> raises on \<^verbatim>\<open>null\<close> and \<^verbatim>\<open>undefined\<close>
  (``Cannot canonicalize null or undefined'') and on every string, number and boolean
  (``Can only canonicalize objects''). The guard is \<^verbatim>\<open>typeof obj !== 'object'\<close>, which an
  array passes: a top-level array is canonicalized element by element and printed, like
  an object.
\<close>

theorem C6_canonicalize_top_level:
  "canonicalize JUndefined = Inl (Error ''Cannot canonicalize null or undefined'') \<and>
   canonicalize JNull = Inl (Error ''Cannot canonicalize null or undefined'') \<and>
   canonicalize (JString s) = Inl (Error ''Can only canonicalize objects'') \<and>
   canonicalize (JNumber n) = Inl (Error ''Can only canonicalize objects'') \<and>
   canonicalize (JBool b) = Inl (Error ''Can only canonicalize objects'') \<and>
   canonicalize (JArray items) =
     Inr (''['' @ join '','' (map (\<lambda>item. case JSON_stringify item of None \<Rightarrow> ''null'' | Some t \<Rightarrow> t)
                              (filter (\<lambda>item. item \<noteq> JUndefined) (map canonicalizeValue items))) @ '']'') \<and>
   (\<exists>out. canonicalize (JObject obj) = Inr out)"
  using canonicalize_text [of "JObject obj"]
  by (simp add: canonicalize_def typeof_def)

text \<open>
  Claim C6, as stated, fails on every top-level array: \<^verbatim>\<open>[3, 1, 2]\<close> and \<^verbatim>\<open>[]\<close> are
  canonicalized, not refused.
\<close>

theorem C6_counterexample:
  "canonicalize (JArray [JNumber ''3'', JNumber ''1'', JNumber ''2'']) = Inr ''[3,1,2]'' \<and>
   canonicalize (JArray []) = Inr ''[]''"
  by (simp add: canonicalize_def typeof_def)


section \<open>The hasher\<close>


lemma canonicalizeObject_fold:
  "canonicalizeObject obj = foldl (canonStep obj) [] (sort (map fst obj))"
  unfolding canonicalizeObject.simps [of obj] canonStep_def [abs_def] Let_def Object_keys_def ..

lemma sameJson_undefined: "sameJson v w \<Longrightarrow> (v = JUndefined \<longleftrightarrow> w = JUndefined)"
  by (cases v; cases w) auto

lemma sort_keys_cong:
  assumes "distinct (xs :: string list)" "distinct ys" "set xs = set ys"
  shows "sort xs = sort ys"
proof -
  from assms have "mset xs = mset ys"
    by (simp add: set_eq_iff_mset_eq_distinct)
  then show ?thesis by (rule sort_cong_mset)
qed

lemma sameJson_canonicalizeValue:
  "sameJson v w \<Longrightarrow> canonicalizeValue v = canonicalizeValue w"
proof (induction v w rule: sameJson.induct)
  case (1 xs ys)
  from "1.prems" have l: "list_all2 sameJson xs ys" by simp
  then have len: "length xs = length ys" by (rule list_all2_lengthD)
  have "map canonicalizeValue xs = map canonicalizeValue ys"
  proof (rule nth_equalityI)
    show "length (map canonicalizeValue xs) = length (map canonicalizeValue ys)"
      using len by simp
  next
    fix i assume "i < length (map canonicalizeValue xs)"
    then have i: "i < length xs" by simp
    with l have "sameJson (xs ! i) (ys ! i)" by (rule list_all2_nthD)
    with "1.IH" [of "xs ! i" "ys ! i"] i len
    show "map canonicalizeValue xs ! i = map canonicalizeValue ys ! i"
      by simp
  qed
  then show ?case by simp
next
  case (2 a b)
  from "2.prems" have da: "distinct (map fst a)" and db: "distinct (map fst b)"
    and keys: "set (map fst a) = set (map fst b)"
    and vals: "\<forall>(k, v) \<in> set a. case map_of b k of Some w \<Rightarrow> sameJson v w | None \<Rightarrow> False"
    by simp_all
  have srt: "sort (map fst a) = sort (map fst b)"
    using da db keys by (rule sort_keys_cong)
  have step: "canonStep a res k = canonStep b res k" if "k \<in> set (map fst a)" for res k
  proof -
    from that obtain v where v: "(k, v) \<in> set a" by auto
    with da have ma: "map_of a k = Some v" by simp
    from vals v obtain w where mb: "map_of b k = Some w" and s: "sameJson v w"
      by (auto split: option.splits)
    from "2.IH" [OF v refl mb s] have "canonicalizeValue v = canonicalizeValue w" .
    with ma mb sameJson_undefined [OF s] show ?thesis
      by (simp add: canonStep_def)
  qed
  have "foldl (canonStep a) [] (sort (map fst a)) = foldl (canonStep b) [] (sort (map fst a))"
    by (rule foldl_cong) (simp_all add: step)
  then have "canonicalizeObject a = canonicalizeObject b"
    by (simp add: canonicalizeObject_fold srt)
  then show ?case by simp
qed auto


lemma prepareForHashing_eq:
  "prepareForHashing r =
     \<lparr> model = model r,
       prompt_hash = normalizeHash (prompt_hash r),
       output_hash = normalizeHash (output_hash r),
       parameters = (case parameters r of Some ps \<Rightarrow> if ps \<noteq> [] then Some ps else None | None \<Rightarrow> None),
       inference_context =
         (case inference_context r of Some cx \<Rightarrow> if cx \<noteq> [] then Some cx else None | None \<Rightarrow> None),
       timestamp = timestamp r, nonce = nonce r \<rparr>"
  by (simp add: prepareForHashing_def Let_def Object_keys_def split: option.splits)

lemma sameOptionalMapping_prepared:
  assumes "sameOptionalMapping p q"
  shows "((case p of Some a \<Rightarrow> if a \<noteq> [] then Some a else None | None \<Rightarrow> None) = None \<and>
          (case q of Some b \<Rightarrow> if b \<noteq> [] then Some b else None | None \<Rightarrow> None) = None) \<or>
         (\<exists>a b. (case p of Some a \<Rightarrow> if a \<noteq> [] then Some a else None | None \<Rightarrow> None) = Some a \<and>
                (case q of Some b \<Rightarrow> if b \<noteq> [] then Some b else None | None \<Rightarrow> None) = Some b \<and>
                sameJson (JObject a) (JObject b))"
  using assms
  by (cases p; cases q) (auto simp: sameOptionalMapping_def)

lemma sameJson_same_keys:
  assumes "map fst a = map fst b" and "distinct (map fst a)"
    and "list_all2 sameJson (map snd a) (map snd b)"
  shows "sameJson (JObject a) (JObject b)"
proof -
  have len: "length a = length b"
    using assms(1) by (metis length_map)
  have db: "distinct (map fst b)" using assms(1,2) by simp
  have ks: "set (map fst a) = set (map fst b)" using assms(1) by simp
  have "case map_of b k of Some w \<Rightarrow> sameJson v w | None \<Rightarrow> False" if kv: "(k, v) \<in> set a" for k v
  proof -
    from kv obtain i where i: "i < length a" "a ! i = (k, v)"
      by (auto simp: in_set_conv_nth)
    have "map fst a ! i = map fst b ! i" using assms(1) by simp
    then have kb: "fst (b ! i) = k"
      using i len by simp
    have "b ! i \<in> set b"
      using i(1) len by simp
    then have "(k, snd (b ! i)) \<in> set b"
      using kb by (metis prod.collapse)
    then have mb: "map_of b k = Some (snd (b ! i))"
      using db by simp
    have "sameJson (map snd a ! i) (map snd b ! i)"
      using assms(3) by (rule list_all2_nthD) (simp add: i)
    then have "sameJson v (snd (b ! i))"
      using i len by simp
    with mb show ?thesis by simp
  qed
  then have "\<forall>(k, v) \<in> set a. case map_of b k of Some w \<Rightarrow> sameJson v w | None \<Rightarrow> False"
    by blast
  with assms(2) db ks show ?thesis
    by (simp only: sameJson.simps simp_thms)
qed

lemma recordObject_fields:
  "recordObject r =
     JObject ([(''model'', JString (model r)),
               (''prompt_hash'', JString (prompt_hash r)),
               (''output_hash'', JString (output_hash r))]
              @ optionalField ''parameters'' JObject (parameters r)
              @ optionalField ''context'' JObject (inference_context r)
              @ optionalField ''timestamp'' JNumber (timestamp r)
              @ optionalField ''nonce'' JString (nonce r))"
  by (simp add: recordObject_def optionalField_def)

lemma optionalField_same:
  assumes "(x = None \<and> y = None) \<or> (\<exists>a b. x = Some a \<and> y = Some b \<and> sameJson (f a) (f b))"
  shows "map fst (optionalField k f x) = map fst (optionalField k f y) \<and>
         list_all2 sameJson (map snd (optionalField k f x)) (map snd (optionalField k f y))"
  using assms by (auto simp: optionalField_def)

lemma optionalField_keys: "set (map fst (optionalField k f x)) \<subseteq> {k} \<and> distinct (map fst (optionalField k f x))"
  by (simp add: optionalField_def split: option.splits)

lemma sameJson_recordObject:
  assumes "logicallyEqual r r'"
  shows "sameJson (recordObject (prepareForHashing r)) (recordObject (prepareForHashing r'))"
proof -
  let ?p = "prepareForHashing r" and ?p' = "prepareForHashing r'"
  from assms have m: "model ?p = model ?p'"
    and ph: "prompt_hash ?p = prompt_hash ?p'"
    and oh: "output_hash ?p = output_hash ?p'"
    and t: "timestamp ?p = timestamp ?p'" and n: "nonce ?p = nonce ?p'"
    by (auto simp: logicallyEqual_def prepareForHashing_eq dest: arg_cong [where f = normalizeHash]
        simp: normalizeHash_toLowerCase)
  from assms have "sameOptionalMapping (parameters r) (parameters r')"
    by (simp add: logicallyEqual_def)
  from sameOptionalMapping_prepared [OF this]
  have ps: "(parameters ?p = None \<and> parameters ?p' = None) \<or>
      (\<exists>a b. parameters ?p = Some a \<and> parameters ?p' = Some b \<and> sameJson (JObject a) (JObject b))"
    by (simp add: prepareForHashing_eq)
  from assms have "sameOptionalMapping (inference_context r) (inference_context r')"
    by (simp add: logicallyEqual_def)
  from sameOptionalMapping_prepared [OF this]
  have cx: "(inference_context ?p = None \<and> inference_context ?p' = None) \<or>
      (\<exists>a b. inference_context ?p = Some a \<and> inference_context ?p' = Some b \<and>
             sameJson (JObject a) (JObject b))"
    by (simp add: prepareForHashing_eq)
  have ts: "(timestamp ?p = None \<and> timestamp ?p' = None) \<or>
      (\<exists>a b. timestamp ?p = Some a \<and> timestamp ?p' = Some b \<and> sameJson (JNumber a) (JNumber b))"
    using t by (cases "timestamp ?p'") auto
  have ns: "(nonce ?p = None \<and> nonce ?p' = None) \<or>
      (\<exists>a b. nonce ?p = Some a \<and> nonce ?p' = Some b \<and> sameJson (JString a) (JString b))"
    using n by (cases "nonce ?p'") auto
  note f1 = optionalField_same [OF ps, of "''parameters''"]
  note f2 = optionalField_same [OF cx, of "''context''"]
  note f3 = optionalField_same [OF ts, of "''timestamp''"]
  note f4 = optionalField_same [OF ns, of "''nonce''"]
  show ?thesis
    unfolding recordObject_fields
  proof (rule sameJson_same_keys)
    show "map fst ([(''model'', JString (model ?p)), (''prompt_hash'', JString (prompt_hash ?p)),
               (''output_hash'', JString (output_hash ?p))]
              @ optionalField ''parameters'' JObject (parameters ?p)
              @ optionalField ''context'' JObject (inference_context ?p)
              @ optionalField ''timestamp'' JNumber (timestamp ?p)
              @ optionalField ''nonce'' JString (nonce ?p)) =
          map fst ([(''model'', JString (model ?p')), (''prompt_hash'', JString (prompt_hash ?p')),
               (''output_hash'', JString (output_hash ?p'))]
              @ optionalField ''parameters'' JObject (parameters ?p')
              @ optionalField ''context'' JObject (inference_context ?p')
              @ optionalField ''timestamp'' JNumber (timestamp ?p')
              @ optionalField ''nonce'' JString (nonce ?p'))"
      using f1 f2 f3 f4 by simp
  next
    show "distinct (map fst ([(''model'', JString (model ?p)), (''prompt_hash'', JString (prompt_hash ?p)),
               (''output_hash'', JString (output_hash ?p))]
              @ optionalField ''parameters'' JObject (parameters ?p)
              @ optionalField ''context'' JObject (inference_context ?p)
              @ optionalField ''timestamp'' JNumber (timestamp ?p)
              @ optionalField ''nonce'' JString (nonce ?p)))"
      by (simp add: optionalField_def split: option.splits)
  next
    show "list_all2 sameJson
          (map snd ([(''model'', JString (model ?p)), (''prompt_hash'', JString (prompt_hash ?p)),
               (''output_hash'', JString (output_hash ?p))]
              @ optionalField ''parameters'' JObject (parameters ?p)
              @ optionalField ''context'' JObject (inference_context ?p)
              @ optionalField ''timestamp'' JNumber (timestamp ?p)
              @ optionalField ''nonce'' JString (nonce ?p)))
          (map snd ([(''model'', JString (model ?p')), (''prompt_hash'', JString (prompt_hash ?p')),
               (''output_hash'', JString (output_hash ?p'))]
              @ optionalField ''parameters'' JObject (parameters ?p')
              @ optionalField ''context'' JObject (inference_context ?p')
              @ optionalField ''timestamp'' JNumber (timestamp ?p')
              @ optionalField ''nonce'' JString (nonce ?p')))"
      using f1 f2 f3 f4 m ph oh
      by (simp add: list_all2_appendI)
  qed
qed

lemma canonicalize_cong:
  "canonicalizeValue (JObject a) = canonicalizeValue (JObject b) \<Longrightarrow>
     canonicalize (JObject a) = canonicalize (JObject b)"
  by (simp add: canonicalize_def typeof_def)


section \<open>The canonicalizer on a canonical value\<close>

text \<open>The keys, their uniqueness and the lookup after an assignment.\<close>

lemma jsSet_keys:
  "set (map fst (jsSet r k c)) =
     (if k = ''__proto__'' then set (map fst r) else insert k (set (map fst r)))"
proof -
  let ?P = "\<lambda>(k', w :: json). isArrayIndex k' \<and> decimalValue k' < decimalValue k"
  have upd: "fst ` (\<lambda>(k', w). if k' = k then (k', c) else (k', w)) ` set r = fst ` set r"
    by (force simp: image_iff split: if_splits)
  have ins: "set (takeWhile ?P r) \<union> set (dropWhile ?P r) = set r"
    by (metis set_append takeWhile_dropWhile_id)
  show ?thesis
    using upd ins by (auto simp: jsSet_def image_Un)
qed

lemma jsSet_distinct:
  assumes "distinct (map fst r)"
  shows "distinct (map fst (jsSet r k c))"
proof -
  let ?P = "\<lambda>(k', w :: json). isArrayIndex k' \<and> decimalValue k' < decimalValue k"
  have upd: "map fst (map (\<lambda>(k', w). if k' = k then (k', c) else (k', w)) r) = map fst r"
    by (induction r) auto
  have ins: "distinct (map fst (takeWhile ?P r @ [(k, c)] @ dropWhile ?P r))"
    if "k \<notin> set (map fst r)"
  proof -
    have "distinct (map fst (takeWhile ?P r) @ map fst (dropWhile ?P r))"
      using assms by (metis map_append takeWhile_dropWhile_id)
    then have d: "distinct (map fst (takeWhile ?P r))" "distinct (map fst (dropWhile ?P r))"
      "set (map fst (takeWhile ?P r)) \<inter> set (map fst (dropWhile ?P r)) = {}"
      by (simp_all only: distinct_append)
    have n: "k \<notin> set (map fst (takeWhile ?P r))" "k \<notin> set (map fst (dropWhile ?P r))"
      using that by (auto dest: set_takeWhileD set_dropWhileD)
    have "distinct (map fst (takeWhile ?P r) @ [k] @ map fst (dropWhile ?P r))"
      using d n by (simp only: distinct_append distinct.simps list.set) auto
    then show ?thesis by simp
  qed
  have app: "distinct (map fst (r @ [(k, c)]))" if "k \<notin> set (map fst r)"
    using assms that by simp
  show ?thesis
    using assms upd ins app unfolding jsSet_def by (simp del: map_map map_append)
qed

lemma jsSet_map_of:
  "map_of (jsSet r k c) k' =
     (if k = ''__proto__'' then map_of r k' else if k' = k then Some c else map_of r k')"
proof -
  let ?P = "\<lambda>(k', w :: json). isArrayIndex k' \<and> decimalValue k' < decimalValue k"
  have upd: "map_of (map (\<lambda>(k', w). if k' = k then (k', c) else (k', w)) r) k' =
             (if k' = k then (if k \<in> set (map fst r) then Some c else None) else map_of r k')"
    by (induction r) (fastforce split: if_splits)+
  have ins: "map_of (takeWhile ?P r @ [(k, c)] @ dropWhile ?P r) k' =
             (if k' = k then Some c else map_of r k')" if "k \<notin> set (map fst r)"
  proof -
    have tw: "map_of (takeWhile ?P r) k = None"
      using that by (auto simp: map_of_eq_None_iff dest: set_takeWhileD)
    have "map_of r k' = map_of (takeWhile ?P r @ dropWhile ?P r) k'" by simp
    also have "\<dots> = (case map_of (takeWhile ?P r) k' of
                    None \<Rightarrow> map_of (dropWhile ?P r) k' | Some v \<Rightarrow> Some v)"
      by (simp only: map_of_append map_add_def)
    finally have r: "map_of r k' = (case map_of (takeWhile ?P r) k' of
                    None \<Rightarrow> map_of (dropWhile ?P r) k' | Some v \<Rightarrow> Some v)" .
    show ?thesis
      using tw r by (auto simp: map_of_append map_add_def split: option.splits)
  qed
  have app: "map_of (r @ [(k, c)]) k' = (if k' = k then Some c else map_of r k')"
    if "k \<notin> set (map fst r)"
  proof -
    have "map_of r k = None" using that by (simp add: map_of_eq_None_iff)
    then show ?thesis
      by (cases "map_of r k'") (auto simp: map_of_append map_add_def)
  qed
  show ?thesis
  proof (cases "k = ''__proto__''")
    case True
    then show ?thesis by (simp add: jsSet_def)
  next
    case np: False
    show ?thesis
    proof (cases "k \<in> set (map fst r)")
      case True
      then have "jsSet r k c = map (\<lambda>(k', w). if k' = k then (k', c) else (k', w)) r"
        using np by (simp add: jsSet_def)
      with upd True np show ?thesis by (simp only: if_True if_False)
    next
      case False
      show ?thesis
      proof (cases "isArrayIndex k")
        case True
        then have "jsSet r k c = takeWhile ?P r @ [(k, c)] @ dropWhile ?P r"
          using np False by (simp add: jsSet_def)
        with ins [OF False] np show ?thesis by (simp only: if_False)
      next
        case ni: False
        then have "jsSet r k c = r @ [(k, c)]"
          using np False by (simp add: jsSet_def)
        with app [OF False] np show ?thesis by (simp only: if_False)
      qed
    qed
  qed
qed

text \<open>The loop as a fold of assignments, and what it leaves in the result.\<close>

lemma canonStep_entry: "canonStep obj = setEntry (canonEntry obj)"
  by (auto simp: fun_eq_iff canonStep_def setEntry_def canonEntry_def Let_def split: option.splits)

lemma jsSet_keys_image:
  "fst ` set (jsSet r k c) =
     (if k = ''__proto__'' then fst ` set r else insert k (fst ` set r))"
  using jsSet_keys [of r k c] by simp

lemma foldl_setEntry_keys:
  "fst ` set (foldl (setEntry g) r ks) =
     fst ` set r \<union> {k \<in> set ks. g k \<noteq> None \<and> k \<noteq> ''__proto__''}"
proof (induction ks arbitrary: r)
  case Nil
  show ?case by simp
next
  case (Cons k ks)
  have one: "fst ` set (setEntry g r k) =
      fst ` set r \<union> (if g k \<noteq> None \<and> k \<noteq> ''__proto__'' then {k} else {})"
    by (cases "g k") (simp_all add: setEntry_def jsSet_keys_image)
  have "fst ` set (foldl (setEntry g) (setEntry g r k) ks) =
      fst ` set (setEntry g r k) \<union> {k \<in> set ks. g k \<noteq> None \<and> k \<noteq> ''__proto__''}"
    by (rule Cons.IH)
  then show ?case
    unfolding one by auto
qed

lemma foldl_setEntry_distinct:
  "distinct (map fst r) \<Longrightarrow> distinct (map fst (foldl (setEntry g) r ks))"
proof (induction ks arbitrary: r)
  case Nil
  then show ?case by simp
next
  case (Cons k ks)
  have "distinct (map fst (setEntry g r k))"
    using Cons.prems by (cases "g k") (simp_all add: setEntry_def jsSet_distinct)
  then show ?case
    using Cons.IH by simp
qed

lemma foldl_setEntry_map_of:
  "map_of (foldl (setEntry g) r ks) k =
     (if k \<in> set ks \<and> g k \<noteq> None \<and> k \<noteq> ''__proto__'' then g k else map_of r k)"
proof (induction ks arbitrary: r)
  case Nil
  show ?case by simp
next
  case (Cons k0 ks)
  have one: "map_of (setEntry g r k0) k =
      (if k = k0 \<and> g k \<noteq> None \<and> k \<noteq> ''__proto__'' then g k else map_of r k)"
    by (cases "g k0") (auto simp: setEntry_def jsSet_map_of)
  have "map_of (foldl (setEntry g) (setEntry g r k0) ks) k =
      (if k \<in> set ks \<and> g k \<noteq> None \<and> k \<noteq> ''__proto__'' then g k
       else map_of (setEntry g r k0) k)"
    by (rule Cons.IH)
  then show ?case
    unfolding one by auto
qed

lemma foldl_filter_skip:
  assumes "\<And>r k. \<not> P k \<Longrightarrow> f r k = r"
  shows "foldl f r (filter P ks) = foldl f r ks"
  using assms by (induction ks arbitrary: r) simp_all

lemma canonicalizeObject_idem:
  assumes d: "distinct (map fst obj)"
    and ih: "\<And>k v. map_of obj k = Some v \<Longrightarrow> v \<noteq> JUndefined \<Longrightarrow>
               canonicalizeValue (canonicalizeValue v) = canonicalizeValue v"
  shows "canonicalizeObject (canonicalizeObject obj) = canonicalizeObject obj"
proof -
  define g where "g = canonEntry obj"
  define ks where "ks = sort (map fst obj)"
  define R where "R = foldl (setEntry g) [] ks"
  define P where "P = (\<lambda>k. g k \<noteq> None \<and> k \<noteq> ''__proto__'')"
  have R: "canonicalizeObject obj = R"
    by (simp add: canonicalizeObject_fold canonStep_entry R_def g_def ks_def)
  have ks: "sorted ks" "distinct ks"
    using d by (simp_all add: ks_def)
  have keys: "set (map fst R) = set (filter P ks)"
    using foldl_setEntry_keys [of g "[]" ks] by (auto simp: R_def P_def)
  have dR: "distinct (map fst R)"
    unfolding R_def by (rule foldl_setEntry_distinct) simp
  have srt: "sort (map fst R) = filter P ks"
  proof (rule sorted_distinct_set_unique)
    show "sorted (sort (map fst R))" by simp
    show "distinct (sort (map fst R))" using dR by simp
    show "sorted (filter P ks)" using ks(1) by (rule sorted_wrt_filter)
    show "distinct (filter P ks)" using ks(2) by simp
    show "set (sort (map fst R)) = set (filter P ks)" using keys by simp
  qed
  have look: "map_of R k = g k" if "P k" "k \<in> set ks" for k
    using that foldl_setEntry_map_of [of g "[]" ks k] by (simp add: R_def P_def)
  have fixed: "c \<noteq> JUndefined \<and> canonicalizeValue c = c" if "g k = Some c" for k c
    using that ih [of k] by (auto simp: g_def canonEntry_def split: option.splits if_splits)
  have step: "setEntry (canonEntry R) r k = setEntry g r k" if "k \<in> set (filter P ks)" for r k
  proof -
    from that have p: "P k" "k \<in> set ks" by simp_all
    then obtain c where c: "g k = Some c" by (auto simp: P_def)
    from look [OF p] c have "map_of R k = Some c" by simp
    with fixed [OF c] have "canonEntry R k = Some c"
      by (simp add: canonEntry_def)
    with c show ?thesis by (simp add: setEntry_def)
  qed
  have "canonicalizeObject R = foldl (setEntry (canonEntry R)) [] (sort (map fst R))"
    by (simp add: canonicalizeObject_fold canonStep_entry)
  also have "\<dots> = foldl (setEntry (canonEntry R)) [] (filter P ks)"
    by (simp only: srt)
  also have "\<dots> = foldl (setEntry g) [] (filter P ks)"
    by (rule foldl_cong) (simp_all only: step)
  also have "\<dots> = R"
    unfolding R_def
    by (rule foldl_filter_skip) (auto simp: P_def setEntry_def jsSet_def split: option.splits)
  finally show ?thesis
    using R by simp
qed

lemma canonicalizeValue_idem:
  "wfJson v \<Longrightarrow> canonicalizeValue (canonicalizeValue v) = canonicalizeValue v"
  "wfJson (JObject obj) \<Longrightarrow> canonicalizeObject (canonicalizeObject obj) = canonicalizeObject obj"
proof (induction v and obj rule: canonicalizeValue_canonicalizeObject.induct)
  case (6 items)
  let ?xs = "filter (\<lambda>item. item \<noteq> JUndefined) (map canonicalizeValue items)"
  have "canonicalizeValue y = y" if "y \<in> set ?xs" for y
  proof -
    from that obtain x where x: "x \<in> set items" "y = canonicalizeValue x" by auto
    from 6(2) x(1) have "wfJson x" by (simp add: list_all_iff)
    with 6(1) x show ?thesis by simp
  qed
  then have "map canonicalizeValue ?xs = ?xs"
    by (simp only: map_idI)
  then show ?case by simp
next
  case (8 obj)
  from 8(2) have d: "distinct (map fst obj)" by simp
  show ?case
  proof (rule canonicalizeObject_idem [OF d])
    fix k v
    assume kv: "map_of obj k = Some v" and u: "v \<noteq> JUndefined"
    then have m: "(k, v) \<in> set obj" by (simp add: map_of_SomeD)
    then have "k \<in> set (sort (Object_keys obj))" by (force simp: Object_keys_def)
    moreover from 8(2) m have "wfJson v" by (auto simp: list_all_iff)
    ultimately show "canonicalizeValue (canonicalizeValue v) = canonicalizeValue v"
      using 8(1) kv u by blast
  qed
qed simp_all

text \<open>Reading \<^verbatim>\<open>isCanonical\<close> and a successful \<^verbatim>\<open>canonicalize\<close>.\<close>

lemma isCanonical_iff:
  "isCanonical parse t \<longleftrightarrow> parseAndCanonicalize parse t = Inr t"
  by (auto simp: isCanonical_def split: sum.splits)

lemma canonicalize_Inr:
  assumes "canonicalize x = Inr s"
  shows "typeof x = ''object''" "x \<noteq> JNull" "JSON_stringify (canonicalizeValue x) = Some s"
  using assms by (auto simp: canonicalize_def Let_def split: if_splits option.splits)

lemma canonicalize_canonical:
  assumes "wfJson x" and "canonicalize x = Inr s"
  shows "canonicalize (canonicalizeValue x) = Inr s"
    and "typeof (canonicalizeValue x) = ''object''" and "canonicalizeValue x \<noteq> JNull"
proof -
  note c = canonicalize_Inr [OF assms(2)]
  from canonicalizeValue_typeof [OF c(1,2)]
  show t: "typeof (canonicalizeValue x) = ''object''" and n: "canonicalizeValue x \<noteq> JNull"
    by (auto simp: typeof_def)
  then have u: "canonicalizeValue x \<noteq> JUndefined" by (auto simp: typeof_def)
  show "canonicalize (canonicalizeValue x) = Inr s"
    using t n u c(3) canonicalizeValue_idem(1) [OF assms(1)]
    by (simp add: canonicalize_def)
qed

lemma isCanonical_parse:
  "isCanonical parse t \<longleftrightarrow> (\<exists>v. parse t = Inr v \<and> canonicalize v = Inr t)"
proof
  assume "isCanonical parse t"
  then have p: "parseAndCanonicalize parse t = Inr t" by (simp add: isCanonical_iff)
  then obtain v where v: "parse t = Inr v"
    by (cases "parse t") (simp_all add: parseAndCanonicalize_def)
  with p have "canonicalize v = Inr t"
    by (simp add: parseAndCanonicalize_def split: if_splits)
  with v show "\<exists>v. parse t = Inr v \<and> canonicalize v = Inr t" by blast
next
  assume "\<exists>v. parse t = Inr v \<and> canonicalize v = Inr t"
  then obtain v where v: "parse t = Inr v" "canonicalize v = Inr t" by blast
  from canonicalize_Inr(1,2) [OF v(2)] v show "isCanonical parse t"
    by (simp add: isCanonical_iff parseAndCanonicalize_def)
qed

text \<open>
  Claim C2. \<^verbatim>\<open>hashInference\<close> gives the same result on two logically equal records: on
  records that differ only in the order of fields (of the parameters and the context, at
  any depth), in the letter case of \<^verbatim>\<open>prompt_hash\<close> and \<^verbatim>\<open>output_hash\<close>, or in an empty
  parameters or context mapping being left out. \<^verbatim>\<open>hashInference\<close> is a function of the
  record and the digest alone, so every call on the same record gives the same string.
\<close>

theorem C2_hash_determinism:
  assumes "logicallyEqual r r'"
  shows "hashInference K r = hashInference K r'"
proof -
  have "canonicalizeValue (recordObject (prepareForHashing r)) =
        canonicalizeValue (recordObject (prepareForHashing r'))"
    using sameJson_recordObject [OF assms] by (rule sameJson_canonicalizeValue)
  then have "canonicalize (recordObject (prepareForHashing r)) =
             canonicalize (recordObject (prepareForHashing r'))"
    unfolding recordObject_fields by (rule canonicalize_cong)
  then show ?thesis by (simp add: hashInference_def)
qed

theorem C2_hash_determinism_witness:
  "logicallyEqual
     \<lparr> model = ''gpt-4'', prompt_hash = ''0xAAAA'', output_hash = ''0xbbbb'',
       parameters = Some [(''temperature'', JNumber ''0.2''), (''max_tokens'', JNumber ''512''),
                          (''stop'', JObject [(''a'', JNull), (''b'', JBool True)])],
       inference_context = Some [], timestamp = Some ''1700000000'', nonce = None \<rparr>
     \<lparr> model = ''gpt-4'', prompt_hash = ''0xaaaa'', output_hash = ''0xBBBB'',
       parameters = Some [(''stop'', JObject [(''b'', JBool True), (''a'', JNull)]),
                          (''max_tokens'', JNumber ''512''), (''temperature'', JNumber ''0.2'')],
       inference_context = None, timestamp = Some ''1700000000'', nonce = None \<rparr> \<and>
   (\<forall>K. hashInference K
     \<lparr> model = ''gpt-4'', prompt_hash = ''0xAAAA'', output_hash = ''0xbbbb'',
       parameters = Some [(''temperature'', JNumber ''0.2''), (''max_tokens'', JNumber ''512''),
                          (''stop'', JObject [(''a'', JNull), (''b'', JBool True)])],
       inference_context = Some [], timestamp = Some ''1700000000'', nonce = None \<rparr> =
    hashInference K
     \<lparr> model = ''gpt-4'', prompt_hash = ''0xaaaa'', output_hash = ''0xBBBB'',
       parameters = Some [(''stop'', JObject [(''b'', JBool True), (''a'', JNull)]),
                          (''max_tokens'', JNumber ''512''), (''temperature'', JNumber ''0.2'')],
       inference_context = None, timestamp = Some ''1700000000'', nonce = None \<rparr>)"
proof -
  let ?r = "\<lparr> model = ''gpt-4'', prompt_hash = ''0xAAAA'', output_hash = ''0xbbbb'',
       parameters = Some [(''temperature'', JNumber ''0.2''), (''max_tokens'', JNumber ''512''),
                          (''stop'', JObject [(''a'', JNull), (''b'', JBool True)])],
       inference_context = Some [], timestamp = Some ''1700000000'', nonce = None \<rparr>"
  let ?r' = "\<lparr> model = ''gpt-4'', prompt_hash = ''0xaaaa'', output_hash = ''0xBBBB'',
       parameters = Some [(''stop'', JObject [(''b'', JBool True), (''a'', JNull)]),
                          (''max_tokens'', JNumber ''512''), (''temperature'', JNumber ''0.2'')],
       inference_context = None, timestamp = Some ''1700000000'', nonce = None \<rparr>"
  have le: "logicallyEqual ?r ?r'"
    by code_simp
  have "hashInference K ?r = hashInference K ?r'" for K
    using le by (rule C2_hash_determinism)
  with le show ?thesis by blast
qed

text \<open>
  Claim C7. For every text \<open>t\<close> and every parser, \<^verbatim>\<open>isCanonical\<close> is true exactly when
  \<^verbatim>\<open>JSON.parse\<close> reads \<open>t\<close> as a value whose canonical text is \<open>t\<close> itself, that is,
  exactly when \<^verbatim>\<open>parseAndCanonicalize\<close> returns \<open>t\<close>; a text that does not parse, or that
  parses to a value with another canonical text, is refused. Let \<open>x\<close> be a value whose
  objects have each key once, with canonical text \<open>s\<close>. Canonicalizing the canonical
  value of \<open>x\<close> gives \<open>s\<close> again; and when the runtime's \<^verbatim>\<open>JSON.parse\<close> reads \<open>s\<close> back as
  the value that was printed, \<^verbatim>\<open>isCanonical\<close> accepts \<open>s\<close>, and parsing \<open>s\<close> and canonicalizing
  again gives the result of \<^verbatim>\<open>canonicalize x\<close>.
\<close>

theorem C7_canonical_roundtrip:
  "(isCanonical parse t \<longleftrightarrow> (\<exists>v. parse t = Inr v \<and> canonicalize v = Inr t)) \<and>
   (isCanonical parse t \<longleftrightarrow> parseAndCanonicalize parse t = Inr t) \<and>
   (wfJson x \<and> canonicalize x = Inr s \<longrightarrow>
      canonicalize (canonicalizeValue x) = canonicalize x \<and>
      (parse s = Inr (canonicalizeValue x) \<longrightarrow>
         isCanonical parse s \<and> parseAndCanonicalize parse s = canonicalize x))"
proof (intro conjI impI)
  show "isCanonical parse t \<longleftrightarrow> (\<exists>v. parse t = Inr v \<and> canonicalize v = Inr t)"
    by (rule isCanonical_parse)
  show "isCanonical parse t \<longleftrightarrow> parseAndCanonicalize parse t = Inr t"
    by (rule isCanonical_iff)
next
  assume a: "wfJson x \<and> canonicalize x = Inr s"
  then have c: "canonicalize (canonicalizeValue x) = Inr s"
    using canonicalize_canonical(1) by blast
  with a show "canonicalize (canonicalizeValue x) = canonicalize x" by simp
  assume p: "parse s = Inr (canonicalizeValue x)"
  with c show "isCanonical parse s"
    unfolding isCanonical_parse by blast
  then show "parseAndCanonicalize parse s = canonicalize x"
    using a by (simp add: isCanonical_iff)
qed

text \<open>
  An instance of C7 with nested objects, array indices as keys, and \<^verbatim>\<open>undefined\<close> as a
  field and as an array element: its canonical text is accepted. The text
  \<^verbatim>\<open>{"b":2,"a":1}\<close>, whose canonical text is \<^verbatim>\<open>{"a":1,"b":2}\<close>, and a text that does not
  parse are refused.
\<close>

theorem C7_canonical_roundtrip_witness:
  \<open>wfJson (JObject [(''b'', JArray [JNumber ''2'', JUndefined]), (''10'', JUndefined),
                    (''a'', JObject [(''z'', JBool True), (''10'', JString ''x''), (''9'', JNull)])]) \<and>
   canonicalize (JObject [(''b'', JArray [JNumber ''2'', JUndefined]), (''10'', JUndefined),
                    (''a'', JObject [(''z'', JBool True), (''10'', JString ''x''), (''9'', JNull)])])
     = Inr ''{"a":{"9":null,"10":"x","z":true},"b":[2]}'' \<and>
   isCanonical
     (\<lambda>t. if t = ''{"a":{"9":null,"10":"x","z":true},"b":[2]}''
          then Inr (JObject [(''a'', JObject [(''9'', JNull), (''10'', JString ''x''), (''z'', JBool True)]),
                             (''b'', JArray [JNumber ''2''])])
          else if t = ''{"b":2,"a":1}''
          then Inr (JObject [(''b'', JNumber ''2''), (''a'', JNumber ''1'')])
          else Inl SyntaxError)
     ''{"a":{"9":null,"10":"x","z":true},"b":[2]}'' \<and>
   parseAndCanonicalize
     (\<lambda>t. if t = ''{"a":{"9":null,"10":"x","z":true},"b":[2]}''
          then Inr (JObject [(''a'', JObject [(''9'', JNull), (''10'', JString ''x''), (''z'', JBool True)]),
                             (''b'', JArray [JNumber ''2''])])
          else if t = ''{"b":2,"a":1}''
          then Inr (JObject [(''b'', JNumber ''2''), (''a'', JNumber ''1'')])
          else Inl SyntaxError)
     ''{"a":{"9":null,"10":"x","z":true},"b":[2]}''
     = Inr ''{"a":{"9":null,"10":"x","z":true},"b":[2]}'' \<and>
   canonicalize (JObject [(''b'', JNumber ''2''), (''a'', JNumber ''1'')]) = Inr ''{"a":1,"b":2}'' \<and>
   isCanonical
     (\<lambda>t. if t = ''{"a":{"9":null,"10":"x","z":true},"b":[2]}''
          then Inr (JObject [(''a'', JObject [(''9'', JNull), (''10'', JString ''x''), (''z'', JBool True)]),
                             (''b'', JArray [JNumber ''2''])])
          else if t = ''{"b":2,"a":1}''
          then Inr (JObject [(''b'', JNumber ''2''), (''a'', JNumber ''1'')])
          else Inl SyntaxError)
     ''{"b":2,"a":1}'' = False \<and>
   isCanonical
     (\<lambda>t. if t = ''{"a":{"9":null,"10":"x","z":true},"b":[2]}''
          then Inr (JObject [(''a'', JObject [(''9'', JNull), (''10'', JString ''x''), (''z'', JBool True)]),
                             (''b'', JArray [JNumber ''2''])])
          else if t = ''{"b":2,"a":1}''
          then Inr (JObject [(''b'', JNumber ''2''), (''a'', JNumber ''1'')])
          else Inl SyntaxError)
     ''{"a":1,'' = False\<close>
proof -
  let ?x = "JObject [(''b'', JArray [JNumber ''2'', JUndefined]), (''10'', JUndefined),
                    (''a'', JObject [(''z'', JBool True), (''10'', JString ''x''), (''9'', JNull)])]"
  let ?y = "JObject [(''a'', JObject [(''9'', JNull), (''10'', JString ''x''), (''z'', JBool True)]),
                     (''b'', JArray [JNumber ''2''])]"
  let ?s = \<open>''{"a":{"9":null,"10":"x","z":true},"b":[2]}''\<close>
  let ?u = \<open>''{"b":2,"a":1}''\<close>
  let ?z = "JObject [(''b'', JNumber ''2''), (''a'', JNumber ''1'')]"
  let ?bad = \<open>''{"a":1,''\<close>
  let ?parse = "\<lambda>t. if t = ?s then Inr ?y else if t = ?u then Inr ?z else Inl SyntaxError"
  have w: "wfJson ?x" by simp
  have v: "canonicalizeValue ?x = ?y"
    by (simp add: canonicalizeObject.simps Object_keys_def jsSet_def isArrayIndex_def
        isDigit_def decimalValue_def)
  have t: "JSON_stringify ?y = Some ?s"
    by (simp add: quoteJSONString_def quoteChar_def)
  have c: "canonicalize ?x = Inr ?s"
    unfolding canonicalize_def Let_def v t by (simp add: typeof_def)
  have p: "?parse ?s = Inr (canonicalizeValue ?x)"
    unfolding v by simp
  have cz: \<open>canonicalize ?z = Inr ''{"a":1,"b":2}''\<close>
    by (simp add: canonicalize_def typeof_def canonicalizeObject.simps Object_keys_def jsSet_def
        isArrayIndex_def isDigit_def decimalValue_def quoteJSONString_def quoteChar_def)
  have pu: "?parse ?u = Inr ?z" by simp
  have pb: "?parse ?bad = Inl SyntaxError" by simp
  note pos = C7_canonical_roundtrip [where parse = ?parse and x = ?x and s = ?s,
      THEN conjunct2, THEN conjunct2, THEN mp, OF conjI [OF w c],
      THEN conjunct2, THEN mp, OF p]
  have 1: "isCanonical ?parse ?s"
    using pos by (rule conjunct1)
  have 2: "parseAndCanonicalize ?parse ?s = Inr ?s"
    using pos [THEN conjunct2] c by (rule trans)
  have 3: "isCanonical ?parse ?u = False"
  proof -
    have "\<not> (\<exists>v. ?parse ?u = Inr v \<and> canonicalize v = Inr ?u)"
    proof
      assume "\<exists>v. ?parse ?u = Inr v \<and> canonicalize v = Inr ?u"
      then obtain v where "?parse ?u = Inr v" "canonicalize v = Inr ?u" by blast
      with pu have "canonicalize ?z = Inr ?u" by simp
      with cz show False by simp
    qed
    with C7_canonical_roundtrip [where parse = ?parse and t = ?u, THEN conjunct1]
    show ?thesis by (simp only: simp_thms)
  qed
  have 4: "isCanonical ?parse ?bad = False"
  proof -
    have "\<not> (\<exists>v. ?parse ?bad = Inr v \<and> canonicalize v = Inr ?bad)"
      by simp
    with C7_canonical_roundtrip [where parse = ?parse and t = ?bad, THEN conjunct1]
    show ?thesis by (simp only: simp_thms)
  qed
  show ?thesis
    by (intro conjI w c 1 2 cz 3 4)
qed

section \<open>The verification engine\<close>


















text \<open>
  Claim C10. With neither a record nor a hash (or with an empty hash, which JavaScript
  takes for absent), \<^verbatim>\<open>verifyInference\<close> returns a result, not an error:
  \<^verbatim>\<open>verified: false\<close>, an empty \<^verbatim>\<open>inference_hash\<close> and the message
  ``Must provide either record or hash''.
\<close>

theorem C10_no_input:
  "verifyInference K storage anchoredAt \<lparr>input_record = None, input_hash = None\<rparr> options =
     Inr \<lparr> verified = False, inference_hash = [], merkle_root = None, anchored_at = None,
           block_number = None, chain_id = None, chain_name = None, tx_hash = None,
           merkle_proof = None, error = Some ''Must provide either record or hash'' \<rparr> \<and>
   verifyInference K storage anchoredAt \<lparr>input_record = None, input_hash = Some []\<rparr> options =
     Inr \<lparr> verified = False, inference_hash = [], merkle_root = None, anchored_at = None,
           block_number = None, chain_id = None, chain_name = None, tx_hash = None,
           merkle_proof = None, error = Some ''Must provide either record or hash'' \<rparr>"
  by (simp add: verifyInference_def emptyResult_def)


end
